theory Spec2Isabelle
  imports Main "HOL-Library.Word" "HOL-Library.Finite_Map"
begin

section \<open>Values shared by the command and the photo service\<close>

text \<open>
  Go errors are values. \<open>errors.Is err icloudgo.ErrPhotosIterateEnd\<close> and
  \<open>errors.Is err os.ErrNotExist\<close> are equality with the two distinguished constructors;
  every other failure (network, permission, ...) is \<open>ErrOther\<close> with its message.
  A nil error is \<open>None\<close>.
\<close>

datatype error = ErrPhotosIterateEnd | ErrNotExist | ErrOther string

text \<open>
  \<open>folderTypeValue\<close>, \<open>folderMetaDataQueryFilter\<close> and \<open>PhotoAlbum\<close> as the photo
  service declares them. The \<open>service\<close> back pointer of an album is the receiver itself
  and is left out; \<open>_length\<close> is a nullable cache.
\<close>

record folderTypeValue =
  Type :: string
  Value :: string

record folderMetaDataQueryFilter =
  FieldName :: string
  Comparator :: string
  FieldValue :: "folderTypeValue option"

record PhotoAlbum =
  Name :: string
  ListType :: string
  ObjType :: string
  Direction :: string
  QueryFilter :: "folderMetaDataQueryFilter list"
  length_cache :: "int option"
  pageSize :: int

text \<open>
  A remote asset, as far as the download command looks at it: \<open>ID()\<close>, \<open>Filename()\<close>
  and \<open>Size()\<close>. Sizes are Go \<open>int\<close> and \<open>int64\<close> values; on the 64-bit targets the
  conversion \<open>int(f.Size())\<close> is the identity, so both are \<open>int\<close> here.
\<close>

record PhotoAsset =
  ID :: string
  Filename :: string
  Size :: int

section \<open>The world outside the command\<close>

text \<open>
  The file system is a map from paths to the size \<open>os.Stat\<close> reports. The world also
  keeps what the command does to its collaborators: the calls of \<open>DownloadTo\<close>, the calls
  of \<open>os.Remove\<close>, and the progress lines written to standard output.
\<close>

datatype event =
    EvAlbum string int string int
  | EvStart PhotoAsset nat
  | EvSkip string
  | EvAutoDelete string int
  | EvDelete PhotoAsset nat

record world =
  files :: "string \<rightharpoonup> int"
  fetched :: "(PhotoAsset \<times> string) list"
  remove_calls :: "string list"
  stdout :: "event list"

text \<open>One pull of the shared iterator either yields an asset or fails.\<close>

datatype pull = Yield PhotoAsset | Fail error

text \<open>
  The collaborators of the command. None of them is defined in the two source files, so
  they are parameters: the path resolver, the outcome of the k-th fetch and of the k-th
  removal (\<open>None\<close> is success), directory creation, album lookup, the remote size of an
  album and the sequence its iterator will produce.
  \<open>album_Size\<close> is the cached \<open>Size()\<close> that is only printed.
\<close>

record env =
  LocalPath :: "PhotoAsset \<Rightarrow> string \<Rightarrow> string"
  DownloadTo_result :: "nat \<Rightarrow> PhotoAsset \<Rightarrow> string \<Rightarrow> error option"
  Remove_fault :: "nat \<Rightarrow> string \<Rightarrow> error option"
  MkdirAll :: "string \<Rightarrow> error option"
  GetAlbum :: "string \<Rightarrow> error + PhotoAlbum"
  album_Size :: "PhotoAlbum \<Rightarrow> int"
  GetSize :: "PhotoAlbum \<Rightarrow> error + 64 word"
  PhotosIter :: "PhotoAlbum \<Rightarrow> pull list"

text \<open>
  Modelled from the spec: \<open>AssetIterator.next()\<close> of the photo service, which is not among
  the source files. The iterator is a finite forward-only sequence; once it is used up
  every pull answers with the distinguished end-of-sequence error.
\<close>

fun Next :: "pull list \<Rightarrow> (error + PhotoAsset) \<times> pull list" where
  "Next [] = (Inl ErrPhotosIterateEnd, [])"
| "Next (Yield a # rest) = (Inr a, rest)"
| "Next (Fail e # rest) = (Inl e, rest)"

text \<open>\<open>os.Stat\<close> with its error dropped: the file information, or nil.\<close>

definition os_Stat :: "world \<Rightarrow> string \<Rightarrow> int option" where
  "os_Stat w path = files w path"

text \<open>
  Modelled from the spec: \<open>RemoteAssetRef.fetchTo\<close> (\<open>PhotoAsset.DownloadTo\<close>), which is
  not among the source files: on success it overwrites the path with the bytes of the
  asset, so the file has the asset's size afterwards; on failure the file system is left
  as it was. Every call is recorded.
\<close>

definition DownloadTo :: "env \<Rightarrow> PhotoAsset \<Rightarrow> string \<Rightarrow> world \<Rightarrow> error option \<times> world" where
  "DownloadTo E photo path w =
     (case DownloadTo_result E (length (fetched w)) photo path of
        Some err \<Rightarrow> (Some err, w\<lparr>fetched := fetched w @ [(photo, path)]\<rparr>)
      | None \<Rightarrow> (None, w\<lparr>files := (files w)(path \<mapsto> Size photo),
                            fetched := fetched w @ [(photo, path)]\<rparr>))"

text \<open>
  \<open>os.Remove\<close>: a fault of the environment comes first; otherwise a missing file is
  \<open>ErrNotExist\<close> and an existing one is removed. Every call is recorded.
\<close>

definition os_Remove :: "env \<Rightarrow> string \<Rightarrow> world \<Rightarrow> error option \<times> world" where
  "os_Remove E path w =
     (let w1 = w\<lparr>remove_calls := remove_calls w @ [path]\<rparr> in
      case Remove_fault E (length (remove_calls w)) path of
        Some err \<Rightarrow> (Some err, w1)
      | None \<Rightarrow>
         (case files w path of
            None \<Rightarrow> (Some ErrNotExist, w1)
          | Some sz \<Rightarrow> (None, w1\<lparr>files := (files w)(path := None)\<rparr>)))"

definition print :: "event \<Rightarrow> world \<Rightarrow> world" where
  "print ev w = w\<lparr>stdout := stdout w @ [ev]\<rparr>"

section \<open>downloadPhotoAsset\<close>

text \<open>
  The function reads the file information once and then either fetches or skips. Its two
  halves are separate definitions because a worker can be interleaved with its siblings
  between the \<open>os.Stat\<close> and the fetch.
\<close>

datatype decision = Skip | Fetch string

definition downloadPhotoAsset_stat :: "env \<Rightarrow> PhotoAsset \<Rightarrow> string \<Rightarrow> nat \<Rightarrow> world \<Rightarrow> decision \<times> world" where
  "downloadPhotoAsset_stat E photo outputDir threadIndex w =
     (let path = LocalPath E photo outputDir;
          w1 = print (EvStart photo threadIndex) w
      in case os_Stat w1 path of
           Some fsize \<Rightarrow>
             if Size photo \<noteq> fsize then (Fetch path, w1)
             else (Skip, print (EvSkip path) w1)
         | None \<Rightarrow> (Fetch path, w1))"

definition downloadPhotoAsset :: "env \<Rightarrow> PhotoAsset \<Rightarrow> string \<Rightarrow> nat \<Rightarrow> world \<Rightarrow> (bool \<times> error option) \<times> world" where
  "downloadPhotoAsset E photo outputDir threadIndex w =
     (case downloadPhotoAsset_stat E photo outputDir threadIndex w of
        (Skip, w1) \<Rightarrow> ((True, None), w1)
      | (Fetch path, w1) \<Rightarrow>
          (case DownloadTo E photo path w1 of (err, w2) \<Rightarrow> ((False, err), w2)))"

section \<open>downloadPhoto\<close>

text \<open>
  The goroutine body as a program counter per worker. Each label is one access to the
  shared state or one call of a collaborator; the scheduler picks which worker moves, and
  the accesses take effect in the order of the schedule. The labels follow the source:
  \<open>AtLoadDownloaded\<close> and \<open>AtLoadFound\<close> are the two atomic loads at the head of the
  loop, \<open>AtNext\<close> the pull, \<open>AtReadErr\<close> the guard \<open>finalErr != nil\<close> and
  \<open>AtWriteErr\<close> the assignment behind it, \<open>AtStat\<close> and \<open>AtDownloadTo\<close> the two halves
  of \<open>downloadPhotoAsset\<close>, \<open>AtAddFound\<close> and \<open>AtAddDownloaded\<close> the atomic increments,
  \<open>AtReadFound\<close> the comparison after the first of them, and \<open>Done\<close> a worker that has
  returned.
\<close>

datatype pc =
    AtLoadDownloaded
  | AtLoadFound
  | AtNext
  | AtReadErr error
  | AtWriteErr error
  | AtStat PhotoAsset
  | AtDownloadTo PhotoAsset string
  | AtAddFound
  | AtReadFound
  | AtAddDownloaded
  | Done

record dstate =
  pcs :: "pc list"
  photoIter :: "pull list"
  downloaded :: "32 word"
  foundDownloadedNum :: "64 word"
  finalErr :: "error option"
  world :: world

definition goto :: "nat \<Rightarrow> pc \<Rightarrow> dstate \<Rightarrow> dstate" where
  "goto i l s = s\<lparr>pcs := (pcs s)[i := l]\<rparr>"

text \<open>\<open>int32(recent)\<close> keeps the low 32 bits of the Go \<open>int\<close>.\<close>

definition int32 :: "64 word \<Rightarrow> 32 word" where
  "int32 x = ucast x"

fun worker_step :: "env \<Rightarrow> string \<Rightarrow> 64 word \<Rightarrow> 64 word \<Rightarrow> nat \<Rightarrow> pc \<Rightarrow> dstate \<Rightarrow> dstate" where
  "worker_step E outputDir recent stopNum i AtLoadDownloaded s =
     (if sint (int32 recent) \<le> sint (downloaded s) then goto i Done s
      else goto i AtLoadFound s)"
| "worker_step E outputDir recent stopNum i AtLoadFound s =
     (if sint stopNum \<le> sint (foundDownloadedNum s) then goto i Done s
      else goto i AtNext s)"
| "worker_step E outputDir recent stopNum i AtNext s =
     (case Next (photoIter s) of
        (Inl err, it) \<Rightarrow>
          if err = ErrPhotosIterateEnd then goto i Done (s\<lparr>photoIter := it\<rparr>)
          else goto i (AtReadErr err) (s\<lparr>photoIter := it\<rparr>)
      | (Inr photoAsset, it) \<Rightarrow> goto i (AtStat photoAsset) (s\<lparr>photoIter := it\<rparr>))"
| "worker_step E outputDir recent stopNum i (AtReadErr err) s =
     (if finalErr s \<noteq> None then goto i (AtWriteErr err) s else goto i Done s)"
| "worker_step E outputDir recent stopNum i (AtWriteErr err) s =
     goto i Done (s\<lparr>finalErr := Some err\<rparr>)"
| "worker_step E outputDir recent stopNum i (AtStat photo) s =
     (case downloadPhotoAsset_stat E photo outputDir i (world s) of
        (Skip, w) \<Rightarrow> goto i AtAddFound (s\<lparr>world := w\<rparr>)
      | (Fetch path, w) \<Rightarrow> goto i (AtDownloadTo photo path) (s\<lparr>world := w\<rparr>))"
| "worker_step E outputDir recent stopNum i (AtDownloadTo photo path) s =
     (case DownloadTo E photo path (world s) of
        (Some err, w) \<Rightarrow> goto i (AtReadErr err) (s\<lparr>world := w\<rparr>)
      | (None, w) \<Rightarrow> goto i AtAddDownloaded (s\<lparr>world := w\<rparr>))"
| "worker_step E outputDir recent stopNum i AtAddFound s =
     goto i AtReadFound (s\<lparr>foundDownloadedNum := foundDownloadedNum s + 1\<rparr>)"
| "worker_step E outputDir recent stopNum i AtReadFound s =
     (if sint stopNum \<le> sint (foundDownloadedNum s) then goto i Done s
      else goto i AtLoadDownloaded s)"
| "worker_step E outputDir recent stopNum i AtAddDownloaded s =
     goto i AtLoadDownloaded (s\<lparr>downloaded := downloaded s + 1\<rparr>)"
| "worker_step E outputDir recent stopNum i Done s = s"

text \<open>The scheduler lets worker \<open>i\<close> move; a number that names no worker moves nothing.\<close>

definition step :: "env \<Rightarrow> string \<Rightarrow> 64 word \<Rightarrow> 64 word \<Rightarrow> nat \<Rightarrow> dstate \<Rightarrow> dstate" where
  "step E outputDir recent stopNum i s =
     (if i < length (pcs s) then worker_step E outputDir recent stopNum i (pcs s ! i) s else s)"

fun exec :: "env \<Rightarrow> string \<Rightarrow> 64 word \<Rightarrow> 64 word \<Rightarrow> nat list \<Rightarrow> dstate \<Rightarrow> dstate" where
  "exec E outputDir recent stopNum [] s = s"
| "exec E outputDir recent stopNum (i # sched) s =
     exec E outputDir recent stopNum sched (step E outputDir recent stopNum i s)"

text \<open>
  Everything before the workers start: the output directory, the album, the effective
  \<open>recent\<close> (0 means the whole album) and the iterator.
\<close>

definition downloadPhoto_setup ::
  "env \<Rightarrow> world \<Rightarrow> string \<Rightarrow> string \<Rightarrow> 64 word \<Rightarrow> int
     \<Rightarrow> (error \<times> world) + (world \<times> 64 word \<times> pull list)" where
  "downloadPhoto_setup E w outputDir albumName recent threadNum =
     (case (if os_Stat w outputDir = None
            then (case MkdirAll E outputDir of
                    Some err \<Rightarrow> Inl (err, w)
                  | None \<Rightarrow> Inr (w\<lparr>files := (files w)(outputDir \<mapsto> 0)\<rparr>))
            else Inr w) of
        Inl ew \<Rightarrow> Inl ew
      | Inr w1 \<Rightarrow>
         (case GetAlbum E albumName of
            Inl err \<Rightarrow> Inl (err, w1)
          | Inr album \<Rightarrow>
             (let w2 = print (EvAlbum (Name album) (album_Size E album) outputDir threadNum) w1 in
              if recent = 0
              then (case GetSize E album of
                      Inl err \<Rightarrow> Inl (err, w2)
                    | Inr n \<Rightarrow> Inr (w2, n, PhotosIter E album))
              else Inr (w2, recent, PhotosIter E album))))"

text \<open>
  The state in which the \<open>threadNum\<close> workers are started: worker \<open>threadIndex\<close> is the
  entry of that index. A worker that is started later than another is one that is scheduled
  later.
\<close>

definition spawn :: "int \<Rightarrow> world \<Rightarrow> pull list \<Rightarrow> dstate" where
  "spawn threadNum w it =
     \<lparr>pcs = replicate (nat threadNum) AtLoadDownloaded, photoIter = it, downloaded = 0,
      foundDownloadedNum = 0, finalErr = None, world = w\<rparr>"

definition all_done :: "dstate \<Rightarrow> bool" where
  "all_done s = list_all (\<lambda>l. l = Done) (pcs s)"

text \<open>
  The workers under a schedule. \<open>wait.Wait()\<close> lets the function return once every
  worker is done, with \<open>finalErr\<close> as its result; \<open>None\<close> is a schedule that stops
  before that. The returned state is the one the function leaves behind.
\<close>

definition run_workers ::
  "env \<Rightarrow> string \<Rightarrow> 64 word \<Rightarrow> 64 word \<Rightarrow> nat list \<Rightarrow> dstate \<Rightarrow> (error option \<times> dstate) option" where
  "run_workers E outputDir recent stopNum sched s0 =
     (let s = exec E outputDir recent stopNum sched s0
      in if all_done s then Some (finalErr s, s) else None)"

definition downloadPhoto ::
  "env \<Rightarrow> nat list \<Rightarrow> world \<Rightarrow> string \<Rightarrow> string \<Rightarrow> 64 word \<Rightarrow> 64 word \<Rightarrow> int
     \<Rightarrow> (error option \<times> dstate) option" where
  "downloadPhoto E sched w outputDir albumName recent stopNum threadNum =
     (case downloadPhoto_setup E w outputDir albumName recent threadNum of
        Inl (err, w1) \<Rightarrow> Some (Some err, spawn 0 w1 [])
      | Inr (w1, recent1, photoIter1) \<Rightarrow>
          run_workers E outputDir recent1 stopNum sched (spawn threadNum w1 photoIter1))"

section \<open>autoDeletePhoto\<close>

definition AlbumNameRecentlyDeleted :: string where
  "AlbumNameRecentlyDeleted = ''Recently Deleted''"

text \<open>
  The goroutine body of the reconciler. \<open>AtPullErr\<close> is the guard \<open>finalErr == nil\<close>
  after a failed pull, \<open>AtRemoveErr\<close> the guard \<open>finalErr != nil\<close> after a failed removal;
  \<open>AtStoreErr\<close> is the assignment both guards lead to.
\<close>

datatype rpc =
    AtPull
  | AtPullErr error
  | AtRemove PhotoAsset
  | AtRemoveErr error
  | AtStoreErr error
  | Finished

record rstate =
  rpcs :: "rpc list"
  rphotoIter :: "pull list"
  rfinalErr :: "error option"
  rworld :: world

definition rgoto :: "nat \<Rightarrow> rpc \<Rightarrow> rstate \<Rightarrow> rstate" where
  "rgoto i l s = s\<lparr>rpcs := (rpcs s)[i := l]\<rparr>"

fun rworker_step :: "env \<Rightarrow> string \<Rightarrow> nat \<Rightarrow> rpc \<Rightarrow> rstate \<Rightarrow> rstate" where
  "rworker_step E outputDir i AtPull s =
     (case Next (rphotoIter s) of
        (Inl err, it) \<Rightarrow>
          if err = ErrPhotosIterateEnd then rgoto i Finished (s\<lparr>rphotoIter := it\<rparr>)
          else rgoto i (AtPullErr err) (s\<lparr>rphotoIter := it\<rparr>)
      | (Inr photoAsset, it) \<Rightarrow> rgoto i (AtRemove photoAsset) (s\<lparr>rphotoIter := it\<rparr>))"
| "rworker_step E outputDir i (AtPullErr err) s =
     (if rfinalErr s = None then rgoto i (AtStoreErr err) s else rgoto i Finished s)"
| "rworker_step E outputDir i (AtRemove photoAsset) s =
     (case os_Remove E (LocalPath E photoAsset outputDir) (rworld s) of
        (Some err, w) \<Rightarrow>
          if err = ErrNotExist then rgoto i AtPull (s\<lparr>rworld := w\<rparr>)
          else rgoto i (AtRemoveErr err) (s\<lparr>rworld := w\<rparr>)
      | (None, w) \<Rightarrow> rgoto i AtPull (s\<lparr>rworld := print (EvDelete photoAsset i) w\<rparr>))"
| "rworker_step E outputDir i (AtRemoveErr err) s =
     (if rfinalErr s \<noteq> None then rgoto i (AtStoreErr err) s else rgoto i Finished s)"
| "rworker_step E outputDir i (AtStoreErr err) s =
     rgoto i Finished (s\<lparr>rfinalErr := Some err\<rparr>)"
| "rworker_step E outputDir i Finished s = s"

definition rstep :: "env \<Rightarrow> string \<Rightarrow> nat \<Rightarrow> rstate \<Rightarrow> rstate" where
  "rstep E outputDir i s =
     (if i < length (rpcs s) then rworker_step E outputDir i (rpcs s ! i) s else s)"

fun rexec :: "env \<Rightarrow> string \<Rightarrow> nat list \<Rightarrow> rstate \<Rightarrow> rstate" where
  "rexec E outputDir [] s = s"
| "rexec E outputDir (i # sched) s = rexec E outputDir sched (rstep E outputDir i s)"

definition rspawn :: "int \<Rightarrow> world \<Rightarrow> pull list \<Rightarrow> rstate" where
  "rspawn threadNum w it =
     \<lparr>rpcs = replicate (nat threadNum) AtPull, rphotoIter = it, rfinalErr = None, rworld = w\<rparr>"

definition all_finished :: "rstate \<Rightarrow> bool" where
  "all_finished s = list_all (\<lambda>l. l = Finished) (rpcs s)"

definition run_removers :: "env \<Rightarrow> string \<Rightarrow> nat list \<Rightarrow> rstate \<Rightarrow> (error option \<times> rstate) option" where
  "run_removers E outputDir sched s0 =
     (let s = rexec E outputDir sched s0
      in if all_finished s then Some (rfinalErr s, s) else None)"

definition autoDeletePhoto ::
  "env \<Rightarrow> nat list \<Rightarrow> world \<Rightarrow> string \<Rightarrow> int \<Rightarrow> (error option \<times> rstate) option" where
  "autoDeletePhoto E sched w outputDir threadNum =
     (case GetAlbum E AlbumNameRecentlyDeleted of
        Inl err \<Rightarrow> Some (Some err, rspawn 0 w [])
      | Inr album \<Rightarrow>
          run_removers E outputDir sched
            (rspawn threadNum (print (EvAutoDelete (Name album) (album_Size E album)) w)
               (PhotosIter E album)))"

section \<open>PhotoService.Albums\<close>

record folderMetaData =
  meta_ListType :: string
  meta_ObjType :: string
  meta_Direction :: string
  meta_QueryFilter :: "folderMetaDataQueryFilter list"
  meta_PageSize :: int

definition smartAlbum :: "string \<Rightarrow> folderMetaDataQueryFilter list" where
  "smartAlbum v =
     [\<lparr>FieldName = ''smartAlbum'', Comparator = ''EQUALS'',
       FieldValue = Some \<lparr>Type = ''STRING'', Value = v\<rparr>\<rparr>]"

definition folderMeta :: "string \<Rightarrow> string \<Rightarrow> folderMetaDataQueryFilter list \<Rightarrow> folderMetaData" where
  "folderMeta obj lst qf =
     \<lparr>meta_ListType = lst, meta_ObjType = obj, meta_Direction = ''ASCENDING'',
      meta_QueryFilter = qf, meta_PageSize = 0\<rparr>"

text \<open>The map literal \<open>icloudPhotoFolderMeta\<close>, in the order it is written; its keys are distinct.\<close>

definition icloudPhotoFolderMeta :: "(string \<times> folderMetaData) list" where
  "icloudPhotoFolderMeta =
     [(''All Photos'', folderMeta ''CPLAssetByAddedDate'' ''CPLAssetAndMasterByAddedDate'' []),
      (''Time-lapse'', folderMeta ''CPLAssetInSmartAlbumByAssetDate:Timelapse''
         ''CPLAssetAndMasterInSmartAlbumByAssetDate'' (smartAlbum ''TIMELAPSE'')),
      (''Videos'', folderMeta ''CPLAssetInSmartAlbumByAssetDate:Video''
         ''CPLAssetAndMasterInSmartAlbumByAssetDate'' (smartAlbum ''VIDEO'')),
      (''Slo-mo'', folderMeta ''CPLAssetInSmartAlbumByAssetDate:Slomo''
         ''CPLAssetAndMasterInSmartAlbumByAssetDate'' (smartAlbum ''SLOMO'')),
      (''Bursts'', folderMeta ''CPLAssetBurstStackAssetByAssetDate''
         ''CPLBurstStackAssetAndMasterByAssetDate'' []),
      (''Favorites'', folderMeta ''CPLAssetInSmartAlbumByAssetDate:Favorite''
         ''CPLAssetAndMasterInSmartAlbumByAssetDate'' (smartAlbum ''FAVORITE'')),
      (''Panoramas'', folderMeta ''CPLAssetInSmartAlbumByAssetDate:Panorama''
         ''CPLAssetAndMasterInSmartAlbumByAssetDate'' (smartAlbum ''PANORAMA'')),
      (''Screenshots'', folderMeta ''CPLAssetInSmartAlbumByAssetDate:Screenshot''
         ''CPLAssetAndMasterInSmartAlbumByAssetDate'' (smartAlbum ''SCREENSHOT'')),
      (''Live'', folderMeta ''CPLAssetInSmartAlbumByAssetDate:Live''
         ''CPLAssetAndMasterInSmartAlbumByAssetDate'' (smartAlbum ''LIVE'')),
      (''Recently Deleted'', folderMeta ''CPLAssetDeletedByExpungedDate''
         ''CPLAssetAndMasterDeletedByExpungedDate'' []),
      (''Hidden'', folderMeta ''CPLAssetHiddenByAssetDate''
         ''CPLAssetAndMasterHiddenByAssetDate'' [])]"

text \<open>
  A remote folder record, as far as \<open>Albums\<close> reads it. The declaration is not among the
  source files; the fields are the ones the loop touches. \<open>AlbumNameEnc\<close> and
  \<open>IsDeleted\<close> are nullable pointers to a field whose \<open>Value\<close> is an \<open>interface{}\<close>: a
  string, or something else.
\<close>

datatype jvalue = JString string | JOther

record folderFields =
  AlbumNameEnc :: "jvalue option"
  IsDeleted :: "jvalue option"

record folder =
  RecordName :: string
  Fields :: folderFields

text \<open>
  The service: the cache \<open>_albums\<close>, and the number of folder queries sent so far, which
  selects the answer of the next one.
\<close>

record PhotoService =
  albums_cache :: "(string, PhotoAlbum) fmap"
  folder_queries :: nat

datatype albums_result =
    AlbumsPanic
  | AlbumsErr error
  | AlbumsOk "(string, PhotoAlbum) fmap"

definition builtin_album :: "string \<Rightarrow> folderMetaData \<Rightarrow> PhotoAlbum" where
  "builtin_album name props =
     \<lparr>Name = name, ListType = meta_ListType props, ObjType = meta_ObjType props,
      Direction = meta_Direction props, QueryFilter = meta_QueryFilter props,
      length_cache = None, pageSize = 100\<rparr>"

definition folder_album :: "string \<Rightarrow> string \<Rightarrow> PhotoAlbum" where
  "folder_album folderName folderID =
     \<lparr>Name = folderName, ListType = ''CPLContainerRelationLiveByAssetDate'',
      ObjType = ''CPLContainerRelationNotDeletedByAssetDate:'' @ folderID,
      Direction = ''ASCENDING'',
      QueryFilter = [\<lparr>FieldName = ''parentId'', Comparator = ''EQUALS'',
                      FieldValue = Some \<lparr>Type = ''STRING'', Value = folderID\<rparr>\<rparr>],
      length_cache = None, pageSize = 100\<rparr>"

text \<open>
  The loop over the remote folders. \<open>decode\<close> is \<open>base64.StdEncoding.DecodeString\<close> with
  its error dropped. The type assertion \<open>Value.(string)\<close> panics on a value that is not a
  string: \<open>None\<close>.
\<close>

fun add_folders ::
  "(string \<Rightarrow> string) \<Rightarrow> folder list \<Rightarrow> (string, PhotoAlbum) fmap \<Rightarrow> (string, PhotoAlbum) fmap option" where
  "add_folders decode [] tmp = Some tmp"
| "add_folders decode (f # folders) tmp =
     (if AlbumNameEnc (Fields f) = None \<or> AlbumNameEnc (Fields f) = Some (JString [])
      then add_folders decode folders tmp
      else if IsDeleted (Fields f) \<noteq> None \<and> IsDeleted (Fields f) \<noteq> Some (JString [])
      then add_folders decode folders tmp
      else if RecordName f = ''----Root-Folder----''
      then add_folders decode folders tmp
      else (case AlbumNameEnc (Fields f) of
              Some (JString enc) \<Rightarrow>
                (let folderName = decode enc in
                 if length folderName = 0 then add_folders decode folders tmp
                 else add_folders decode folders
                        (fmupd folderName (folder_album folderName (RecordName f)) tmp))
            | _ \<Rightarrow> None))"

definition Albums ::
  "(nat \<Rightarrow> error + folder list) \<Rightarrow> (string \<Rightarrow> string) \<Rightarrow> PhotoService
     \<Rightarrow> albums_result \<times> PhotoService" where
  "Albums getFolders decode r =
     (if albums_cache r \<noteq> fmempty then (AlbumsOk (albums_cache r), r)
      else
        (let tmp = fold (\<lambda>(name, props). fmupd name (builtin_album name props))
                     icloudPhotoFolderMeta fmempty;
             r1 = r\<lparr>folder_queries := Suc (folder_queries r)\<rparr>
         in case getFolders (folder_queries r) of
              Inl err \<Rightarrow> (AlbumsErr err, r1)
            | Inr folders \<Rightarrow>
               (case add_folders decode folders tmp of
                  None \<Rightarrow> (AlbumsPanic, r1)
                | Some tmp1 \<Rightarrow> (AlbumsOk tmp1, r1\<lparr>albums_cache := tmp1\<rparr>))))"

section \<open>Concrete inputs\<close>

text \<open>
  Two assets, an album and an environment built around a given iterator content and given
  outcomes of the fetches and removals. The path of an asset is its file name under the
  output directory; directory creation and album lookup succeed.
\<close>

definition assetA :: PhotoAsset where
  "assetA = \<lparr>ID = ''A'', Filename = ''A.jpg'', Size = 2097152\<rparr>"

definition assetB :: PhotoAsset where
  "assetB = \<lparr>ID = ''B'', Filename = ''B.jpg'', Size = 1048576\<rparr>"

definition test_album :: "string \<Rightarrow> PhotoAlbum" where
  "test_album name =
     \<lparr>Name = name, ListType = ''CPLAssetAndMasterByAddedDate'', ObjType = ''CPLAssetByAddedDate'',
      Direction = ''ASCENDING'', QueryFilter = [], length_cache = None, pageSize = 100\<rparr>"

definition test_env ::
  "pull list \<Rightarrow> (nat \<Rightarrow> PhotoAsset \<Rightarrow> string \<Rightarrow> error option) \<Rightarrow> (nat \<Rightarrow> string \<Rightarrow> error option) \<Rightarrow> env" where
  "test_env it dl rm =
     \<lparr>LocalPath = (\<lambda>a outputDir. outputDir @ ''/'' @ Filename a),
      DownloadTo_result = dl, Remove_fault = rm, MkdirAll = (\<lambda>d. None),
      GetAlbum = (\<lambda>name. Inr (test_album name)),
      album_Size = (\<lambda>a. int (length it)), GetSize = (\<lambda>a. Inr (of_nat (length it))),
      PhotosIter = (\<lambda>a. it)\<rparr>"

definition no_fault :: "nat \<Rightarrow> PhotoAsset \<Rightarrow> string \<Rightarrow> error option" where
  "no_fault k a p = None"

definition no_rm_fault :: "nat \<Rightarrow> string \<Rightarrow> error option" where
  "no_rm_fault k p = None"

definition world_empty :: world where
  "world_empty = \<lparr>files = [''out'' \<mapsto> 0], fetched = [], remove_calls = [], stdout = []\<rparr>"

definition world_B :: world where
  "world_B = \<lparr>files = [''out'' \<mapsto> 0, ''out/B.jpg'' \<mapsto> 1048576], fetched = [],
               remove_calls = [], stdout = []\<rparr>"

definition world_AB :: world where
  "world_AB = \<lparr>files = [''out'' \<mapsto> 0, ''out/A.jpg'' \<mapsto> 2097152, ''out/B.jpg'' \<mapsto> 1048576],
                fetched = [], remove_calls = [], stdout = []\<rparr>"

text \<open>A single worker that is given \<open>n\<close> turns.\<close>

definition turns :: "nat \<Rightarrow> nat list" where
  "turns n = replicate n 0"

text \<open>A fetch that always fails, and a removal that is always refused.\<close>

definition fetch_fails :: "nat \<Rightarrow> PhotoAsset \<Rightarrow> string \<Rightarrow> error option" where
  "fetch_fails k a p = Some (ErrOther ''connection reset'')"

definition remove_denied :: "nat \<Rightarrow> string \<Rightarrow> error option" where
  "remove_denied k p = Some (ErrOther ''permission denied'')"

text \<open>
  A service with an empty cache, a remote that knows one user folder named \<open>Trip\<close>, a
  remote that is unreachable, and the album map the first one leads to.
\<close>

definition test_service :: PhotoService where
  "test_service = \<lparr>albums_cache = fmempty, folder_queries = 0\<rparr>"

definition test_folders :: "nat \<Rightarrow> error + folder list" where
  "test_folders k =
     Inr [\<lparr>RecordName = ''----Root-Folder----'',
            Fields = \<lparr>AlbumNameEnc = Some (JString ''Um9vdA==''), IsDeleted = None\<rparr>\<rparr>,
          \<lparr>RecordName = ''F1'',
            Fields = \<lparr>AlbumNameEnc = Some (JString ''VHJpcA==''), IsDeleted = None\<rparr>\<rparr>]"

definition offline :: "nat \<Rightarrow> error + folder list" where
  "offline k = Inl (ErrOther ''offline'')"

definition test_decode :: "string \<Rightarrow> string" where
  "test_decode enc = (if enc = ''VHJpcA=='' then ''Trip'' else if enc = ''Um9vdA=='' then ''Root'' else [])"

definition test_albums :: "(string, PhotoAlbum) fmap" where
  "test_albums =
     fmupd ''Trip'' (folder_album ''Trip'' ''F1'')
       (fold (\<lambda>(name, props). fmupd name (builtin_album name props)) icloudPhotoFolderMeta fmempty)"

section \<open>The main goroutine and the WaitGroup\<close>


















section \<open>Measures and counters used in the proofs\<close>

text \<open>
  An upper bound on the number of steps a worker of \<open>downloadPhoto\<close> can still take, from
  its label and the number of pulls the iterator can still answer with something other
  than end-of-sequence. One round of the loop is six steps and consumes one pull.
\<close>

fun rank :: "pc \<Rightarrow> nat \<Rightarrow> nat" where
  "rank Done n = 0"
| "rank (AtWriteErr e) n = 1"
| "rank (AtReadErr e) n = 2"
| "rank AtNext n = 6 * n + 1"
| "rank AtLoadFound n = 6 * n + 2"
| "rank AtLoadDownloaded n = 6 * n + 3"
| "rank AtAddDownloaded n = 6 * n + 4"
| "rank AtReadFound n = 6 * n + 4"
| "rank AtAddFound n = 6 * n + 5"
| "rank (AtDownloadTo a p) n = 6 * n + 5"
| "rank (AtStat a) n = 6 * n + 6"

text \<open>The same for a worker of \<open>autoDeletePhoto\<close>: a round is two steps, and leaving takes
  up to three more.\<close>

fun rrank :: "rpc \<Rightarrow> nat \<Rightarrow> nat" where
  "rrank Finished n = 0"
| "rrank (AtStoreErr e) n = 1"
| "rrank (AtPullErr e) n = 2"
| "rrank (AtRemoveErr e) n = 2"
| "rrank AtPull n = 2 * n + 2"
| "rrank (AtRemove a) n = 2 * n + 3"

text \<open>The number of workers, weighted by a function of their label.\<close>

definition tot :: "(pc \<Rightarrow> nat) \<Rightarrow> dstate \<Rightarrow> nat" where
  "tot f s = sum_list (map f (pcs s))"

definition rtot :: "(rpc \<Rightarrow> nat) \<Rightarrow> rstate \<Rightarrow> nat" where
  "rtot f s = sum_list (map f (rpcs s))"

text \<open>
  Labels of \<open>downloadPhoto\<close>: \<open>ticket\<close> marks a worker that has passed the check of
  \<open>downloaded\<close> and may still fetch in this round, \<open>spent\<close> one whose fetch is over and
  not yet counted or who will never fetch again, \<open>adding\<close> one about to count its fetch,
  \<open>inflight\<close> one holding an asset that is not yet counted, \<open>statting\<close> one holding an
  asset it has not announced yet, \<open>failing\<close> one that holds an error, \<open>writing\<close> one
  about to assign \<open>finalErr\<close>.
\<close>

fun ticket :: "pc \<Rightarrow> nat" where
  "ticket AtLoadFound = 1"
| "ticket AtNext = 1"
| "ticket (AtStat a) = 1"
| "ticket (AtDownloadTo a p) = 1"
| "ticket l = 0"

fun spent :: "pc \<Rightarrow> nat" where
  "spent AtAddDownloaded = 1"
| "spent (AtReadErr e) = 1"
| "spent (AtWriteErr e) = 1"
| "spent Done = 1"
| "spent l = 0"

fun adding :: "pc \<Rightarrow> nat" where
  "adding AtAddDownloaded = 1"
| "adding l = 0"

fun inflight :: "pc \<Rightarrow> nat" where
  "inflight (AtStat a) = 1"
| "inflight (AtDownloadTo a p) = 1"
| "inflight AtAddFound = 1"
| "inflight AtAddDownloaded = 1"
| "inflight l = 0"

fun statting :: "pc \<Rightarrow> nat" where
  "statting (AtStat a) = 1"
| "statting l = 0"

fun failing :: "pc \<Rightarrow> nat" where
  "failing (AtReadErr e) = 1"
| "failing (AtWriteErr e) = 1"
| "failing l = 0"

fun writing :: "pc \<Rightarrow> nat" where
  "writing (AtWriteErr e) = 1"
| "writing l = 0"

fun finished :: "pc \<Rightarrow> nat" where
  "finished Done = 1"
| "finished l = 0"

text \<open>The checks a worker that never passes the second one can still make.\<close>

fun checks_left :: "pc \<Rightarrow> nat" where
  "checks_left AtLoadDownloaded = 2"
| "checks_left AtLoadFound = 1"
| "checks_left l = 0"

text \<open>The assets announced on standard output (\<open>start ...\<close>).\<close>

fun is_start :: "event \<Rightarrow> bool" where
  "is_start (EvStart a i) = True"
| "is_start ev = False"

definition started :: "world \<Rightarrow> nat" where
  "started w = length (filter is_start (stdout w))"

text \<open>The error slot of \<open>downloadPhoto\<close> is nil and nobody is about to assign it.\<close>

definition no_write :: "dstate \<Rightarrow> bool" where
  "no_write s \<longleftrightarrow> finalErr s = None \<and> tot writing s = 0"

text \<open>
  The bookkeeping behind the bound on the fetches: \<open>F0\<close> fetches were recorded before the
  run and \<open>K\<close> is the cap.
\<close>

definition inv_cap :: "nat \<Rightarrow> nat \<Rightarrow> dstate \<Rightarrow> bool" where
  "inv_cap F0 K s \<longleftrightarrow>
     length (fetched (world s)) \<le> F0 + unat (downloaded s) + tot spent s
     \<and> length (fetched (world s)) + tot ticket s + 1 \<le> F0 + K + length (pcs s)
     \<and> F0 + unat (downloaded s) + tot adding s \<le> length (fetched (world s))"

text \<open>A worker that has gone past the two checks at the head of the loop.\<close>

fun beyond_checks :: "pc \<Rightarrow> nat" where
  "beyond_checks AtLoadDownloaded = 0"
| "beyond_checks AtLoadFound = 0"
| "beyond_checks Done = 0"
| "beyond_checks l = 1"

text \<open>A pull that yields an asset with a given property.\<close>

fun yields :: "(PhotoAsset \<Rightarrow> bool) \<Rightarrow> pull \<Rightarrow> bool" where
  "yields P (Yield a) = P a"
| "yields P (Fail e) = False"

definition any_asset :: "PhotoAsset \<Rightarrow> bool" where
  "any_asset a = True"

text \<open>
  The bookkeeping of a run without failures over \<open>M\<close> assets, \<open>S0\<close> announcements having
  been printed before: every asset is in the iterator, in a worker's hands or counted;
  and a worker has left only if the iterator was used up or a stop condition holds.
\<close>

definition inv_all :: "nat \<Rightarrow> nat \<Rightarrow> 64 word \<Rightarrow> 64 word \<Rightarrow> dstate \<Rightarrow> bool" where
  "inv_all S0 M recent stopNum s \<longleftrightarrow>
     unat (downloaded s) + unat (foundDownloadedNum s) + tot inflight s + length (photoIter s) = M
     \<and> started (world s) + tot statting s + length (photoIter s) = S0 + M
     \<and> tot failing s = 0
     \<and> list_all (yields any_asset) (photoIter s)
     \<and> (0 < tot finished s \<longrightarrow>
          photoIter s = [] \<or> sint (int32 recent) \<le> sint (downloaded s)
          \<or> sint stopNum \<le> sint (foundDownloadedNum s))"

text \<open>
  Labels of \<open>autoDeletePhoto\<close>: a worker holding an asset to remove, one that has left,
  and one that holds an error or an asset outside a given set.
\<close>

fun removing :: "rpc \<Rightarrow> nat" where
  "removing (AtRemove a) = 1"
| "removing l = 0"

fun rfinished :: "rpc \<Rightarrow> nat" where
  "rfinished Finished = 1"
| "rfinished l = 0"

fun rbad :: "(PhotoAsset \<Rightarrow> bool) \<Rightarrow> rpc \<Rightarrow> nat" where
  "rbad P AtPull = 0"
| "rbad P Finished = 0"
| "rbad P (AtRemove a) = (if P a then 0 else 1)"
| "rbad P l = 1"

text \<open>The local file of an asset is already gone and its removal meets no other fault.\<close>

definition absent :: "env \<Rightarrow> string \<Rightarrow> (string \<rightharpoonup> int) \<Rightarrow> PhotoAsset \<Rightarrow> bool" where
  "absent E outputDir F a \<longleftrightarrow>
     F (LocalPath E a outputDir) = None \<and> (\<forall>k. Remove_fault E k (LocalPath E a outputDir) = None)"

text \<open>
  The bookkeeping of a reconciliation over \<open>M\<close> assets that are all absent, \<open>R0\<close> removals
  having been attempted before and \<open>F\<close> being the files.
\<close>

definition inv_absent :: "env \<Rightarrow> string \<Rightarrow> (string \<rightharpoonup> int) \<Rightarrow> nat \<Rightarrow> nat \<Rightarrow> rstate \<Rightarrow> bool" where
  "inv_absent E outputDir F R0 M s \<longleftrightarrow>
     length (remove_calls (rworld s)) + rtot removing s + length (rphotoIter s) = R0 + M
     \<and> rtot (rbad (absent E outputDir F)) s = 0
     \<and> rfinalErr s = None
     \<and> files (rworld s) = F
     \<and> list_all (yields (absent E outputDir F)) (rphotoIter s)
     \<and> (0 < rtot rfinished s \<longrightarrow> rphotoIter s = [])"





text \<open>
  The pool of \<open>downloadPhoto\<close>: the counter of the WaitGroup is the number of running
  workers plus the pending \<open>Add\<close>; once the function has returned, every worker is done and
  the result is the error slot. \<open>padded\<close> lists the workers that are not started yet at
  the head of their loop, which is where the run under a worker schedule has them.
\<close>

definition padded :: "int \<Rightarrow> dstate \<Rightarrow> dstate" where
  "padded threadNum s =
     s\<lparr>pcs := pcs s @ replicate (nat threadNum - length (pcs s)) AtLoadDownloaded\<rparr>"


definition rpadded :: "int \<Rightarrow> rstate \<Rightarrow> rstate" where
  "rpadded threadNum s =
     s\<lparr>rpcs := rpcs s @ replicate (nat threadNum - length (rpcs s)) AtPull\<rparr>"


section \<open>Evaluating concrete runs\<close>

lemma turns_simps: "turns 0 = []" "turns (Suc n) = 0 # turns n"
  by (simp_all add: turns_def)

lemma turns_numeral: "turns (numeral k) = 0 # turns (pred_numeral k)"
  by (simp add: turns_def numeral_eq_Suc)

lemma count_list_turns: "count_list (turns n) j = (if j = 0 then n else 0)"
  by (induction n) (auto simp: turns_simps)

lemma setup_test_env:
  "files w outputDir \<noteq> None \<Longrightarrow>
   downloadPhoto_setup (test_env it dl rm) w outputDir albumName recent threadNum =
     Inr (print (EvAlbum albumName (int (length it)) outputDir threadNum) w,
          if recent = 0 then of_nat (length it) else recent, it)"
  by (auto simp add: downloadPhoto_setup_def test_env_def os_Stat_def Let_def test_album_def)

lemma downloadPhoto_test_env:
  "files w outputDir \<noteq> None \<Longrightarrow>
   downloadPhoto (test_env it dl rm) sched w outputDir albumName recent stopNum threadNum =
     run_workers (test_env it dl rm) outputDir
       (if recent = 0 then of_nat (length it) else recent) stopNum sched
       (spawn threadNum (print (EvAlbum albumName (int (length it)) outputDir threadNum) w) it)"
  by (simp add: downloadPhoto_def setup_test_env)

lemmas run_defs = run_workers_def all_done_def spawn_def step_def goto_def int32_def
  downloadPhotoAsset_stat_def os_Stat_def print_def DownloadTo_def Let_def test_env_def
  assetA_def assetB_def world_empty_def world_B_def world_AB_def no_fault_def no_rm_fault_def
  turns_simps turns_numeral fetch_fails_def remove_denied_def

lemmas rrun_defs = autoDeletePhoto_def run_removers_def all_finished_def rspawn_def rstep_def
  rgoto_def os_Remove_def print_def Let_def test_env_def assetA_def assetB_def world_empty_def
  world_B_def world_AB_def no_fault_def no_rm_fault_def turns_simps turns_numeral fetch_fails_def remove_denied_def

section \<open>The error slot of downloadPhoto\<close>

text \<open>
  Claim C1: a run of \<open>downloadPhoto\<close> in which a worker meets a pull failure other than
  exhaustion, or a failed fetch, returns that error. The code does not: both places guard
  the assignment with \<open>finalErr != nil\<close>, which never holds for the initially nil slot.
  With one worker, an iterator whose only pull fails with a timeout gives a run that
  returns nil; so does an iterator yielding asset A whose fetch fails.
\<close>

theorem C1_failure_returns_nil:
  "map_option fst
     (downloadPhoto (test_env [Fail (ErrOther ''timeout'')] no_fault no_rm_fault) (turns 4)
        world_empty ''out'' ''All Photos'' 0 50 1) = Some None
   \<and> map_option fst
     (downloadPhoto (test_env [Yield assetA] fetch_fails no_rm_fault) (turns 6)
        world_empty ''out'' ''All Photos'' 0 50 1) = Some None"
  by (simp add: downloadPhoto_test_env world_empty_def) (simp add: run_defs)

section \<open>The error slot of autoDeletePhoto\<close>

text \<open>
  Claim C2: a run of \<open>autoDeletePhoto\<close> in which a removal fails with an error other than
  file-does-not-exist returns that error. The code guards this assignment with
  \<open>finalErr != nil\<close> too (the pull failure a few lines above uses \<open>finalErr == nil\<close>):
  with one worker, asset A present locally and its removal refused, the run attempts the
  removal once and returns nil.
\<close>

theorem C2_remove_failure_returns_nil:
  "map_option fst
     (autoDeletePhoto (test_env [Yield assetA] no_fault remove_denied) (turns 3)
        world_AB ''out'' 1) = Some None
   \<and> map_option (remove_calls \<circ> rworld \<circ> snd)
     (autoDeletePhoto (test_env [Yield assetA] no_fault remove_denied) (turns 3)
        world_AB ''out'' 1) = Some [''out/A.jpg'']"
  by (simp add: rrun_defs)

section \<open>The concrete scenario\<close>

text \<open>
  Claim C7: the iterator yields asset A (2 MB, no local file) and then asset B (1 MB, a
  local file of 1 MB), no stop condition is in reach (\<open>recent = 0\<close>, that is the whole
  album, and the default \<open>stopNum = 50\<close>), one worker. The run returns nil, A is the only
  asset fetched and has its size on disk afterwards, B is reported as skipped, and both
  counters end at 1.
\<close>

theorem C7_scenario:
  "map_option
     (\<lambda>(r, s). (r, fetched (world s), stdout (world s), downloaded s, foundDownloadedNum s,
                files (world s) ''out/A.jpg'', photoIter s))
     (downloadPhoto (test_env [Yield assetA, Yield assetB] no_fault no_rm_fault) (turns 15)
        world_B ''out'' ''All Photos'' 0 50 1)
   = Some (None, [(assetA, ''out/A.jpg'')],
           [EvAlbum ''All Photos'' 2 ''out'' 1, EvStart assetA 0, EvStart assetB 0,
            EvSkip ''out/B.jpg''],
           1, 1, Some 2097152, [])"
  by (simp add: downloadPhoto_test_env world_B_def) (simp add: run_defs)

section \<open>Steps of the download workers\<close>

lemma Next_length: "length (snd (Next it)) \<le> length it"
  by (cases it rule: Next.cases) simp_all

lemma Next_Inr: "Next it = (Inr a, it') \<Longrightarrow> length it = Suc (length it')"
  by (cases it rule: Next.cases) auto

lemma Next_Inl_other: "Next it = (Inl e, it') \<Longrightarrow> e \<noteq> ErrPhotosIterateEnd \<Longrightarrow> length it = Suc (length it')"
  by (cases it rule: Next.cases) auto

lemma Next_end: "Next it = (Inl ErrPhotosIterateEnd, it') \<Longrightarrow> length it' \<le> length it"
  by (cases it rule: Next.cases) auto

lemma length_pcs_step [simp]: "length (pcs (step E out r st i s)) = length (pcs s)"
  by (cases "pcs s ! i")
     (auto simp: step_def goto_def split: prod.splits sum.splits option.splits decision.splits)

lemma length_pcs_exec [simp]: "length (pcs (exec E out r st sched s)) = length (pcs s)"
  by (induction sched arbitrary: s) simp_all

lemma rank_mono: "m \<le> n \<Longrightarrow> rank l m \<le> rank l n"
  by (cases l) simp_all

lemma length_iter_step: "length (photoIter (step E out r st i s)) \<le> length (photoIter s)"
  by (cases "pcs s ! i")
     (auto simp: step_def goto_def dest: Next_Inr Next_Inl_other Next_end split: prod.splits sum.splits option.splits decision.splits)

lemma step_other: "j \<noteq> i \<Longrightarrow> pcs (step E out r st i s) ! j = pcs s ! j"
  by (cases "pcs s ! i")
     (auto simp: step_def goto_def split: prod.splits sum.splits option.splits decision.splits)

lemma step_rank_self:
  "i < length (pcs s) \<Longrightarrow> pcs s ! i \<noteq> Done \<Longrightarrow>
   rank (pcs (step E out r st i s) ! i) (length (photoIter (step E out r st i s)))
     < rank (pcs s ! i) (length (photoIter s))"
  by (cases "pcs s ! i")
     (auto simp: step_def goto_def dest: Next_Inr Next_Inl_other Next_end split: prod.splits sum.splits option.splits decision.splits)

lemma step_Done: "pcs s ! i = Done \<Longrightarrow> step E out r st i s = s"
  by (simp add: step_def)

lemma step_rank:
  assumes "j < length (pcs s)"
  shows "rank (pcs (step E out r st i s) ! j) (length (photoIter (step E out r st i s)))
     \<le> rank (pcs s ! j) (length (photoIter s)) - (if i = j then 1 else 0)"
proof (cases "i = j")
  case True
  show ?thesis
  proof (cases "pcs s ! j = Done")
    case True
    with \<open>i = j\<close> show ?thesis by (simp add: step_Done)
  next
    case False
    with assms \<open>i = j\<close> step_rank_self[of j s E out r st] show ?thesis by simp
  qed
next
  case False
  then show ?thesis
    using rank_mono[OF length_iter_step[of E out r st i s], of "pcs s ! j"]
    by (simp add: step_other)
qed

lemma exec_rank:
  "j < length (pcs s) \<Longrightarrow>
   rank (pcs (exec E out r st sched s) ! j) (length (photoIter (exec E out r st sched s)))
     \<le> rank (pcs s ! j) (length (photoIter s)) - count_list sched j"
proof (induction sched arbitrary: s)
  case Nil
  then show ?case by simp
next
  case (Cons i sched)
  have "rank (pcs (exec E out r st sched (step E out r st i s)) ! j)
          (length (photoIter (exec E out r st sched (step E out r st i s))))
        \<le> rank (pcs (step E out r st i s) ! j) (length (photoIter (step E out r st i s)))
            - count_list sched j"
    using Cons.prems by (intro Cons.IH) simp
  also have "\<dots> \<le> (rank (pcs s ! j) (length (photoIter s)) - (if i = j then 1 else 0))
            - count_list sched j"
    using step_rank[OF Cons.prems, of E out r st i] by (rule diff_le_mono)
  finally show ?case by (auto simp: algebra_simps)
qed

lemma rank_0: "rank l n = 0 \<longleftrightarrow> l = Done"
  by (cases l) simp_all

lemma enough_turns_done:
  assumes "j < length (pcs s)" "rank (pcs s ! j) (length (photoIter s)) \<le> count_list sched j"
  shows "pcs (exec E out r st sched s) ! j = Done"
  using exec_rank[OF assms(1), of E out r st sched] assms(2) by (simp add: rank_0)

lemma enough_turns_all_done:
  assumes "\<forall>j < nat threadNum. 6 * length it + 3 \<le> count_list sched j"
  shows "all_done (exec E out r st sched (spawn threadNum w it))"
  unfolding all_done_def list_all_length
proof (intro allI impI)
  fix j assume "j < length (pcs (exec E out r st sched (spawn threadNum w it)))"
  then have j: "j < nat threadNum" by (simp add: spawn_def)
  then have "pcs (exec E out r st sched (spawn threadNum w it)) ! j = Done"
    using assms by (intro enough_turns_done) (simp_all add: spawn_def)
  then show "pcs (exec E out r st sched (spawn threadNum w it)) ! j = Done" .
qed

section \<open>The counters as machine integers\<close>

lemma sint32_unat:
  assumes "unat (d :: 32 word) < 2 ^ 31"
  shows "sint d = int (unat d)"
proof -
  from assms have "int (unat d) < int (2 ^ 31)" by (simp only: of_nat_less_iff)
  then have "uint d < 2 ^ 31" by simp
  then have "signed_take_bit 31 (uint d) = uint d"
    by (intro signed_take_bit_int_eq_self) (simp_all add: order_trans[of _ 0])
  then show ?thesis by (simp add: sint_uint)
qed

lemma sint64_unat:
  assumes "unat (d :: 64 word) < 2 ^ 63"
  shows "sint d = int (unat d)"
proof -
  from assms have "int (unat d) < int (2 ^ 63)" by (simp only: of_nat_less_iff)
  then have "uint d < 2 ^ 63" by simp
  then have "signed_take_bit 63 (uint d) = uint d"
    by (intro signed_take_bit_int_eq_self) (simp_all add: order_trans[of _ 0])
  then show ?thesis by (simp add: sint_uint)
qed

lemma uint_sint_nonneg: "0 \<le> sint (x :: 64 word) \<Longrightarrow> uint x = sint x"
  using sint_lt[of x] by (simp add: uint_sint take_bit_int_eq_self)

lemma sint_int32: "0 \<le> sint (recent::64 word) \<Longrightarrow> sint recent < 2 ^ 31 \<Longrightarrow> sint (int32 recent) = sint recent"
  by (simp add: int32_def signed_ucast_eq uint_sint_nonneg signed_take_bit_int_eq_self)

lemma unat32_Suc: "unat (d :: 32 word) + 1 < 2 ^ 32 \<Longrightarrow> unat (d + 1) = unat d + 1"
  using unat_add_lem[of d 1] by simp

lemma unat64_Suc: "unat (d :: 64 word) + 1 < 2 ^ 64 \<Longrightarrow> unat (d + 1) = unat d + 1"
  using unat_add_lem[of d 1] by simp

section \<open>Counting workers by label\<close>

lemma sum_list_map_update:
  "i < length xs \<Longrightarrow> sum_list (map f (xs[i := y])) = sum_list (map f xs) - f (xs ! i) + (f y :: nat)"
proof (induction xs arbitrary: i)
  case Nil
  then show ?case by simp
next
  case (Cons x xs)
  show ?case
  proof (cases i)
    case 0
    then show ?thesis by simp
  next
    case (Suc k)
    then have "k < length xs" using Cons.prems by simp
    moreover have "f (xs ! k) \<le> sum_list (map f xs)"
      using \<open>k < length xs\<close> by (simp add: member_le_sum_list)
    ultimately show ?thesis using Cons.IH[of k] Suc by simp
  qed
qed

lemma tot_goto: "i < length (pcs s) \<Longrightarrow> tot f (goto i l s) = tot f s - f (pcs s ! i) + f l"
  by (simp add: tot_def goto_def sum_list_map_update)

lemma tot_ge: "i < length (pcs s) \<Longrightarrow> f (pcs s ! i) \<le> tot f s"
  by (simp add: tot_def member_le_sum_list)

lemma tot_fields [simp]:
  "tot f (s\<lparr>photoIter := it\<rparr>) = tot f s"
  "tot f (s\<lparr>world := w\<rparr>) = tot f s"
  "tot f (s\<lparr>downloaded := d\<rparr>) = tot f s"
  "tot f (s\<lparr>foundDownloadedNum := n\<rparr>) = tot f s"
  "tot f (s\<lparr>finalErr := e\<rparr>) = tot f s"
  by (simp_all add: tot_def)

lemma goto_fields [simp]:
  "photoIter (goto i l s) = photoIter s"
  "world (goto i l s) = world s"
  "downloaded (goto i l s) = downloaded s"
  "foundDownloadedNum (goto i l s) = foundDownloadedNum s"
  "finalErr (goto i l s) = finalErr s"
  "length (pcs (goto i l s)) = length (pcs s)"
  by (simp_all add: goto_def)

lemma tot_replicate: "tot f (spawn n w it) = nat n * f AtLoadDownloaded"
  by (simp add: tot_def spawn_def sum_list_replicate)

lemma Next_cases:
  obtains (End) "it = []" "Next it = (Inl ErrPhotosIterateEnd, [])"
  | (Yield) a rest where "it = Yield a # rest" "Next it = (Inr a, rest)"
  | (Fail) e rest where "it = Fail e # rest" "Next it = (Inl e, rest)"
  by (cases it rule: Next.cases) auto

lemma no_write_step:
  assumes "no_write s"
  shows "no_write (step E out r st i s)"
proof (cases "i < length (pcs s)")
  case False
  then show ?thesis using assms by (simp add: step_def)
next
  case True
  note ge = tot_ge[OF True, of writing]
  show ?thesis
    using assms ge True
    by (cases "pcs s ! i"; cases "photoIter s" rule: Next_cases)
       (auto simp: step_def no_write_def tot_goto split: prod.splits option.splits decision.splits)
qed

lemma no_write_exec: "no_write s \<Longrightarrow> no_write (exec E out r st sched s)"
  by (induction sched arbitrary: s) (simp_all add: no_write_step)

lemma no_write_spawn: "no_write (spawn n w it)"
  by (simp add: no_write_def tot_replicate) (simp add: spawn_def)

lemma run_workers_nil:
  "run_workers E out r st sched (spawn n w it) = Some (res, s) \<Longrightarrow> res = None"
  using no_write_exec[OF no_write_spawn, of E out r st sched n w it]
  by (auto simp: run_workers_def Let_def no_write_def split: if_splits)

section \<open>Runs that stop at the first checks\<close>

lemma pcs_goto: "pcs (goto i l s) = (pcs s)[i := l]"
  by (simp add: goto_def)

lemma stopped_step:
  assumes "sint stopNum \<le> 0" "foundDownloadedNum s = 0" "tot beyond_checks s = 0"
  shows "foundDownloadedNum (step E out r stopNum i s) = 0
       \<and> tot beyond_checks (step E out r stopNum i s) = 0
       \<and> photoIter (step E out r stopNum i s) = photoIter s
       \<and> world (step E out r stopNum i s) = world s
       \<and> (\<forall>j < length (pcs s). checks_left (pcs (step E out r stopNum i s) ! j)
              \<le> checks_left (pcs s ! j) - (if i = j then 1 else 0))"
proof (cases "i < length (pcs s)")
  case False
  then show ?thesis using assms by (simp add: step_def)
next
  case True
  have "beyond_checks (pcs s ! i) = 0"
    using tot_ge[OF True, of beyond_checks] assms(3) by simp
  then consider "pcs s ! i = AtLoadDownloaded" | "pcs s ! i = AtLoadFound" | "pcs s ! i = Done"
    by (cases "pcs s ! i") simp_all
  then show ?thesis
    using assms True
    by cases (auto simp: step_def tot_goto pcs_goto nth_list_update)
qed

lemma stopped_exec:
  assumes "sint stopNum \<le> 0" "foundDownloadedNum s = 0" "tot beyond_checks s = 0"
  shows "foundDownloadedNum (exec E out r stopNum sched s) = 0
       \<and> tot beyond_checks (exec E out r stopNum sched s) = 0
       \<and> photoIter (exec E out r stopNum sched s) = photoIter s
       \<and> world (exec E out r stopNum sched s) = world s
       \<and> (\<forall>j < length (pcs s). checks_left (pcs (exec E out r stopNum sched s) ! j)
              \<le> checks_left (pcs s ! j) - count_list sched j)"
  using assms(2,3)
proof (induction sched arbitrary: s)
  case Nil
  then show ?case by simp
next
  case (Cons i sched)
  note st = stopped_step[OF assms(1) Cons.prems, of E out r i]
  note ih = Cons.IH[of "step E out r stopNum i s"]
  have a: "foundDownloadedNum (step E out r stopNum i s) = 0"
    and b: "tot beyond_checks (step E out r stopNum i s) = 0" using st by simp_all
  note ih' = ih[OF a b]
  show ?case
  proof (intro conjI allI impI)
    fix j assume j: "j < length (pcs s)"
    have "checks_left (pcs (exec E out r stopNum sched (step E out r stopNum i s)) ! j)
            \<le> checks_left (pcs (step E out r stopNum i s) ! j) - count_list sched j"
      using ih' j by simp
    also have "\<dots> \<le> (checks_left (pcs s ! j) - (if i = j then 1 else 0)) - count_list sched j"
      using st j by (intro diff_le_mono) simp
    finally show "checks_left (pcs (exec E out r stopNum (i # sched) s) ! j)
            \<le> checks_left (pcs s ! j) - count_list (i # sched) j"
      by (auto simp: algebra_simps)
  qed (use st ih' in simp_all)
qed

lemma checks_left_0: "beyond_checks l = 0 \<Longrightarrow> checks_left l = 0 \<Longrightarrow> l = Done"
  by (cases l) simp_all

lemma tot_0_nth: "tot f s = 0 \<Longrightarrow> j < length (pcs s) \<Longrightarrow> f (pcs s ! j) = 0"
  using tot_ge[of j s f] by simp

lemma setup_Inr_world:
  "downloadPhoto_setup E w outputDir albumName recent threadNum = Inr (w1, recent1, it) \<Longrightarrow>
   fetched w1 = fetched w \<and> remove_calls w1 = remove_calls w"
  by (auto simp: downloadPhoto_setup_def print_def Let_def split: if_splits option.splits sum.splits)

lemma downloadPhoto_Inr:
  "downloadPhoto_setup E w outputDir albumName recent threadNum = Inr (w1, recent1, it) \<Longrightarrow>
   downloadPhoto E sched w outputDir albumName recent stopNum threadNum =
     run_workers E outputDir recent1 stopNum sched (spawn threadNum w1 it)"
  by (simp add: downloadPhoto_def)

lemma run_workers_Some:
  "run_workers E out r st sched s0 = Some (res, s) \<longleftrightarrow>
     all_done (exec E out r st sched s0) \<and> s = exec E out r st sched s0 \<and> res = finalErr s"
  by (auto simp: run_workers_def Let_def)

lemma run_workers_not_None:
  "run_workers E out r st sched s0 \<noteq> None \<longleftrightarrow> all_done (exec E out r st sched s0)"
  by (auto simp: run_workers_def Let_def)

lemma spawn_fields [simp]:
  "photoIter (spawn n w it) = it" "world (spawn n w it) = w" "downloaded (spawn n w it) = 0"
  "foundDownloadedNum (spawn n w it) = 0" "finalErr (spawn n w it) = None"
  "length (pcs (spawn n w it)) = nat n"
  "j < nat n \<Longrightarrow> pcs (spawn n w it) ! j = AtLoadDownloaded"
  by (simp_all add: spawn_def)

section \<open>The cap on new downloads\<close>

lemma DownloadTo_fetched:
  "DownloadTo E a p w = (res, w') \<Longrightarrow> length (fetched w') = Suc (length (fetched w))"
  by (auto simp: DownloadTo_def split: option.splits)

lemma stat_fetched:
  "downloadPhotoAsset_stat E a out i w = (dec, w') \<Longrightarrow> fetched w' = fetched w"
  by (auto simp: downloadPhotoAsset_stat_def print_def Let_def split: option.splits if_splits)

lemma ticket_spent_le: "ticket l + spent l \<le> 1"
  by (cases l) simp_all

lemma busy_list:
  "i < length xs \<Longrightarrow>
   sum_list (map ticket xs) + sum_list (map spent xs) + (1 - (ticket (xs ! i) + spent (xs ! i)))
     \<le> length xs"
proof (induction xs arbitrary: i)
  case Nil
  then show ?case by simp
next
  case (Cons x xs)
  have all: "sum_list (map ticket ys) + sum_list (map spent ys) \<le> length ys" for ys
  proof (induction ys)
    case Nil
    then show ?case by simp
  next
    case (Cons a ys)
    then show ?case using ticket_spent_le[of a] by simp
  qed
  show ?case
  proof (cases i)
    case 0
    then show ?thesis using all[of xs] ticket_spent_le[of x] by simp
  next
    case (Suc k)
    then show ?thesis using Cons.IH[of k] Cons.prems ticket_spent_le[of x] by simp
  qed
qed

lemma tot_busy:
  "i < length (pcs s) \<Longrightarrow>
   tot ticket s + tot spent s + (1 - (ticket (pcs s ! i) + spent (pcs s ! i))) \<le> length (pcs s)"
  using busy_list[of i "pcs s"] by (simp add: tot_def)

lemma inv_cap_step:
  assumes inv: "inv_cap F0 K s"
    and cap: "sint (int32 recent) = int K"
    and range: "K + length (pcs s) \<le> 2 ^ 31"
  shows "inv_cap F0 K (step E out recent st i s)"
proof (cases "i < length (pcs s)")
  case False
  then show ?thesis using inv by (simp add: step_def)
next
  case True
  note g1 = tot_ge[OF True, of ticket] and g2 = tot_ge[OF True, of spent]
    and g3 = tot_ge[OF True, of adding] and busy = tot_busy[OF True]
  have A: "length (fetched (world s)) \<le> F0 + unat (downloaded s) + tot spent s"
    and B: "length (fetched (world s)) + tot ticket s + 1 \<le> F0 + K + length (pcs s)"
    and D: "F0 + unat (downloaded s) + tot adding s \<le> length (fetched (world s))"
    using inv by (simp_all add: inv_cap_def)
  have small: "unat (downloaded s) + tot adding s < 2 ^ 31" using B D range by simp
  then have sd: "sint (downloaded s) = int (unat (downloaded s))"
    by (intro sint32_unat) simp
  have lt: "unat (downloaded s) < K" if "\<not> sint (int32 recent) \<le> sint (downloaded s)"
    using that cap sd by linarith
  show ?thesis
  proof (cases "pcs s ! i")
    case AtLoadDownloaded
    then show ?thesis
      using A B D g1 g2 g3 busy lt True
      by (auto simp: step_def inv_cap_def tot_goto)
  next
    case AtLoadFound
    then show ?thesis
      using A B D g1 g2 g3 True by (auto simp: step_def inv_cap_def tot_goto)
  next
    case AtNext
    then show ?thesis
      using A B D g1 g2 g3 True
      by (cases "photoIter s" rule: Next_cases) (auto simp: step_def inv_cap_def tot_goto)
  next
    case (AtReadErr e)
    then show ?thesis
      using A B D g1 g2 g3 True by (auto simp: step_def inv_cap_def tot_goto)
  next
    case (AtWriteErr e)
    then show ?thesis
      using A B D g1 g2 g3 True by (auto simp: step_def inv_cap_def tot_goto)
  next
    case (AtStat a)
    then show ?thesis
      using A B D g1 g2 g3 True
      by (auto simp: step_def inv_cap_def tot_goto dest!: stat_fetched split: prod.splits decision.splits)
  next
    case (AtDownloadTo a p)
    then show ?thesis
      using A B D g1 g2 g3 True
      by (auto simp: step_def inv_cap_def tot_goto dest!: DownloadTo_fetched split: prod.splits option.splits)
  next
    case AtAddFound
    then show ?thesis
      using A B D g1 g2 g3 True by (auto simp: step_def inv_cap_def tot_goto)
  next
    case AtReadFound
    then show ?thesis
      using A B D g1 g2 g3 True by (auto simp: step_def inv_cap_def tot_goto)
  next
    case AtAddDownloaded
    have "unat (downloaded s) + 1 < 2 ^ 32" using small g3 AtAddDownloaded by simp
    then have "unat (downloaded s + 1) = unat (downloaded s) + 1" by (rule unat32_Suc)
    then show ?thesis
      using AtAddDownloaded A B D g1 g2 g3 True by (auto simp: step_def inv_cap_def tot_goto)
  next
    case Done
    then show ?thesis using inv by (simp add: step_def)
  qed
qed

lemma inv_cap_exec:
  assumes "inv_cap F0 K s" "sint (int32 recent) = int K" "K + length (pcs s) \<le> 2 ^ 31"
  shows "inv_cap F0 K (exec E out recent st sched s)"
  using assms(1,3)
proof (induction sched arbitrary: s)
  case Nil
  then show ?case by simp
next
  case (Cons i sched)
  show ?case
    using Cons.prems by (simp add: Cons.IH inv_cap_step[OF _ assms(2)])
qed

lemma inv_cap_spawn: "1 \<le> n \<Longrightarrow> inv_cap (length (fetched w)) K (spawn n w it)"
  by (simp add: inv_cap_def tot_replicate)

lemma inv_cap_bound:
  "inv_cap F0 K s \<Longrightarrow> length (fetched (world s)) + 1 \<le> F0 + K + length (pcs s)"
  by (simp add: inv_cap_def)

section \<open>Every fair schedule lets downloadPhoto return\<close>

lemma downloadPhoto_returns:
  assumes "downloadPhoto_setup E w outputDir albumName recent threadNum = Inr (w1, recent1, it)"
    and "\<forall>j < nat threadNum. 6 * length it + 3 \<le> count_list sched j"
  shows "downloadPhoto E sched w outputDir albumName recent stopNum threadNum \<noteq> None"
  using enough_turns_all_done[OF assms(2)]
  by (simp only: downloadPhoto_Inr[OF assms(1)] run_workers_not_None)

section \<open>Runs without failures\<close>

lemma stat_started:
  "downloadPhotoAsset_stat E a out i w = (dec, w') \<Longrightarrow> started w' = Suc (started w)"
  by (auto simp: downloadPhotoAsset_stat_def print_def started_def Let_def split: option.splits if_splits)

lemma DownloadTo_started:
  "DownloadTo E a p w = (res, w') \<Longrightarrow> started w' = started w"
  by (auto simp: DownloadTo_def started_def split: option.splits)

lemma DownloadTo_ok:
  "\<forall>k a p. DownloadTo_result E k a p = None \<Longrightarrow> DownloadTo E a p w = (res, w') \<Longrightarrow> res = None"
  by (auto simp: DownloadTo_def split: option.splits)

lemma sum_list_all_Done:
  "list_all (\<lambda>l. l = Done) xs \<Longrightarrow> sum_list (map f xs) = length xs * (f Done :: nat)"
  by (induction xs) simp_all

lemma all_done_tot: "all_done s \<Longrightarrow> tot f s = length (pcs s) * f Done"
  by (simp add: all_done_def tot_def sum_list_all_Done)

lemma inv_all_step:
  assumes inv: "inv_all S0 M recent stopNum s"
    and ok: "\<forall>k a p. DownloadTo_result E k a p = None"
    and range: "M < 2 ^ 31"
  shows "inv_all S0 M recent stopNum (step E out recent stopNum i s)"
proof (cases "i < length (pcs s)")
  case False
  then show ?thesis using inv by (simp add: step_def)
next
  case True
  note g1 = tot_ge[OF True, of inflight] and g2 = tot_ge[OF True, of statting]
    and g3 = tot_ge[OF True, of failing] and g4 = tot_ge[OF True, of finished]
  have A: "unat (downloaded s) + unat (foundDownloadedNum s) + tot inflight s + length (photoIter s) = M"
    and B: "started (world s) + tot statting s + length (photoIter s) = S0 + M"
    and C: "tot failing s = 0"
    and D: "list_all (yields any_asset) (photoIter s)"
    and F: "0 < tot finished s \<Longrightarrow>
          photoIter s = [] \<or> sint (int32 recent) \<le> sint (downloaded s)
          \<or> sint stopNum \<le> sint (foundDownloadedNum s)"
    using inv by (simp_all add: inv_all_def)
  show ?thesis
  proof (cases "pcs s ! i")
    case AtLoadDownloaded
    then show ?thesis
      using A B C D F g1 g2 g3 g4 True by (auto simp: step_def inv_all_def tot_goto)
  next
    case AtLoadFound
    then show ?thesis
      using A B C D F g1 g2 g3 g4 True by (auto simp: step_def inv_all_def tot_goto)
  next
    case AtNext
    then show ?thesis
      using A B C D F g1 g2 g3 g4 True
      by (cases "photoIter s" rule: Next_cases) (auto simp: step_def inv_all_def tot_goto)
  next
    case (AtReadErr e)
    then show ?thesis using C g3 by simp
  next
    case (AtWriteErr e)
    then show ?thesis using C g3 by simp
  next
    case (AtStat a)
    then show ?thesis
      using A B C D F g1 g2 g3 g4 True
      by (auto simp: step_def inv_all_def tot_goto dest!: stat_started split: prod.splits decision.splits)
  next
    case (AtDownloadTo a p)
    then show ?thesis
      using A B C D F g1 g2 g3 g4 True
      by (auto simp: step_def inv_all_def tot_goto dest: DownloadTo_started DownloadTo_ok[OF ok]
               split: prod.splits option.splits)
  next
    case AtAddFound
    have le: "unat (foundDownloadedNum s) + 1 \<le> M" using A g1 AtAddFound by simp
    then have "unat (foundDownloadedNum s) + 1 < 2 ^ 64" using range by simp
    then have u: "unat (foundDownloadedNum s + 1) = unat (foundDownloadedNum s) + 1"
      by (rule unat64_Suc)
    have "sint (foundDownloadedNum s) = int (unat (foundDownloadedNum s))"
      using le range by (intro sint64_unat) simp
    moreover have "sint (foundDownloadedNum s + 1) = int (unat (foundDownloadedNum s + 1))"
      using le range u by (intro sint64_unat) simp
    ultimately have mono: "x \<le> sint (foundDownloadedNum s) \<Longrightarrow> x \<le> sint (foundDownloadedNum s + 1)" for x
      using u by linarith
    show ?thesis
      using AtAddFound A B C D F g1 g2 g3 g4 True u mono
      by (auto simp: step_def inv_all_def tot_goto)
  next
    case AtReadFound
    then show ?thesis
      using A B C D F g1 g2 g3 g4 True by (auto simp: step_def inv_all_def tot_goto)
  next
    case AtAddDownloaded
    have le: "unat (downloaded s) + 1 \<le> M" using A g1 AtAddDownloaded by simp
    then have "unat (downloaded s) + 1 < 2 ^ 32" using range by simp
    then have u: "unat (downloaded s + 1) = unat (downloaded s) + 1"
      by (rule unat32_Suc)
    have "sint (downloaded s) = int (unat (downloaded s))"
      using le range by (intro sint32_unat) simp
    moreover have "sint (downloaded s + 1) = int (unat (downloaded s + 1))"
      using le range u by (intro sint32_unat) simp
    ultimately have mono: "x \<le> sint (downloaded s) \<Longrightarrow> x \<le> sint (downloaded s + 1)" for x
      using u by linarith
    show ?thesis
      using AtAddDownloaded A B C D F g1 g2 g3 g4 True u mono
      by (auto simp: step_def inv_all_def tot_goto)
  next
    case Done
    then show ?thesis using inv by (simp add: step_def)
  qed
qed

lemma inv_all_exec:
  assumes "inv_all S0 M recent stopNum s" "\<forall>k a p. DownloadTo_result E k a p = None" "M < 2 ^ 31"
  shows "inv_all S0 M recent stopNum (exec E out recent stopNum sched s)"
  using assms(1)
proof (induction sched arbitrary: s)
  case Nil
  then show ?case by simp
next
  case (Cons i sched)
  show ?case
    using Cons.prems by (simp add: Cons.IH inv_all_step[OF _ assms(2,3)])
qed

lemma inv_all_spawn:
  "list_all (yields any_asset) it \<Longrightarrow> inv_all (started w) (length it) recent stopNum (spawn n w it)"
  by (simp add: inv_all_def tot_replicate)

lemma setup_Inr_started:
  "downloadPhoto_setup E w outputDir albumName recent threadNum = Inr (w1, recent1, it) \<Longrightarrow>
   started w1 = started w"
  by (auto simp: downloadPhoto_setup_def print_def started_def Let_def split: if_splits option.splits sum.splits)

section \<open>Steps of the removal workers\<close>

lemma rpcs_rgoto: "rpcs (rgoto i l s) = (rpcs s)[i := l]"
  by (simp add: rgoto_def)

lemma rgoto_fields [simp]:
  "rphotoIter (rgoto i l s) = rphotoIter s"
  "rworld (rgoto i l s) = rworld s"
  "rfinalErr (rgoto i l s) = rfinalErr s"
  "length (rpcs (rgoto i l s)) = length (rpcs s)"
  by (simp_all add: rgoto_def)

lemma rtot_rgoto: "i < length (rpcs s) \<Longrightarrow> rtot f (rgoto i l s) = rtot f s - f (rpcs s ! i) + f l"
  by (simp add: rtot_def rgoto_def sum_list_map_update)

lemma rtot_ge: "i < length (rpcs s) \<Longrightarrow> f (rpcs s ! i) \<le> rtot f s"
  by (simp add: rtot_def member_le_sum_list)

lemma rtot_fields [simp]:
  "rtot f (s\<lparr>rphotoIter := it\<rparr>) = rtot f s"
  "rtot f (s\<lparr>rworld := w\<rparr>) = rtot f s"
  "rtot f (s\<lparr>rfinalErr := e\<rparr>) = rtot f s"
  by (simp_all add: rtot_def)

lemma rtot_rspawn: "rtot f (rspawn n w it) = nat n * f AtPull"
  by (simp add: rtot_def rspawn_def sum_list_replicate)

lemma rspawn_fields [simp]:
  "rphotoIter (rspawn n w it) = it" "rworld (rspawn n w it) = w" "rfinalErr (rspawn n w it) = None"
  "length (rpcs (rspawn n w it)) = nat n"
  "j < nat n \<Longrightarrow> rpcs (rspawn n w it) ! j = AtPull"
  by (simp_all add: rspawn_def)

lemma length_rpcs_rstep [simp]: "length (rpcs (rstep E out i s)) = length (rpcs s)"
  by (cases "rpcs s ! i")
     (auto simp: rstep_def split: prod.splits sum.splits option.splits)

lemma length_rpcs_rexec [simp]: "length (rpcs (rexec E out sched s)) = length (rpcs s)"
  by (induction sched arbitrary: s) simp_all

lemma rrank_mono: "m \<le> n \<Longrightarrow> rrank l m \<le> rrank l n"
  by (cases l) simp_all

lemma length_iter_rstep: "length (rphotoIter (rstep E out i s)) \<le> length (rphotoIter s)"
  by (cases "rpcs s ! i")
     (auto simp: rstep_def dest: Next_Inr Next_Inl_other Next_end split: prod.splits sum.splits option.splits)

lemma rstep_other: "j \<noteq> i \<Longrightarrow> rpcs (rstep E out i s) ! j = rpcs s ! j"
  by (cases "rpcs s ! i")
     (auto simp: rstep_def rpcs_rgoto split: prod.splits sum.splits option.splits)

lemma rstep_rank_self:
  "i < length (rpcs s) \<Longrightarrow> rpcs s ! i \<noteq> Finished \<Longrightarrow>
   rrank (rpcs (rstep E out i s) ! i) (length (rphotoIter (rstep E out i s)))
     < rrank (rpcs s ! i) (length (rphotoIter s))"
  by (cases "rpcs s ! i")
     (auto simp: rstep_def rpcs_rgoto dest: Next_Inr Next_Inl_other Next_end split: prod.splits sum.splits option.splits)

lemma rstep_Finished: "rpcs s ! i = Finished \<Longrightarrow> rstep E out i s = s"
  by (simp add: rstep_def)

lemma rstep_rank:
  assumes "j < length (rpcs s)"
  shows "rrank (rpcs (rstep E out i s) ! j) (length (rphotoIter (rstep E out i s)))
     \<le> rrank (rpcs s ! j) (length (rphotoIter s)) - (if i = j then 1 else 0)"
proof (cases "i = j")
  case True
  show ?thesis
  proof (cases "rpcs s ! j = Finished")
    case True
    with \<open>i = j\<close> show ?thesis by (simp add: rstep_Finished)
  next
    case False
    with assms \<open>i = j\<close> rstep_rank_self[of j s E out] show ?thesis by simp
  qed
next
  case False
  then show ?thesis
    using rrank_mono[OF length_iter_rstep[of E out i s], of "rpcs s ! j"]
    by (simp add: rstep_other)
qed

lemma rexec_rank:
  "j < length (rpcs s) \<Longrightarrow>
   rrank (rpcs (rexec E out sched s) ! j) (length (rphotoIter (rexec E out sched s)))
     \<le> rrank (rpcs s ! j) (length (rphotoIter s)) - count_list sched j"
proof (induction sched arbitrary: s)
  case Nil
  then show ?case by simp
next
  case (Cons i sched)
  have "rrank (rpcs (rexec E out sched (rstep E out i s)) ! j)
          (length (rphotoIter (rexec E out sched (rstep E out i s))))
        \<le> rrank (rpcs (rstep E out i s) ! j) (length (rphotoIter (rstep E out i s)))
            - count_list sched j"
    using Cons.prems by (intro Cons.IH) simp
  also have "\<dots> \<le> (rrank (rpcs s ! j) (length (rphotoIter s)) - (if i = j then 1 else 0))
            - count_list sched j"
    using rstep_rank[OF Cons.prems, of E out i] by (rule diff_le_mono)
  finally show ?case by (auto simp: algebra_simps)
qed

lemma rrank_0: "rrank l n = 0 \<longleftrightarrow> l = Finished"
  by (cases l) simp_all

lemma enough_turns_all_finished:
  assumes "\<forall>j < nat threadNum. 2 * length it + 2 \<le> count_list sched j"
  shows "all_finished (rexec E out sched (rspawn threadNum w it))"
  unfolding all_finished_def list_all_length
proof (intro allI impI)
  fix j assume "j < length (rpcs (rexec E out sched (rspawn threadNum w it)))"
  then have j: "j < nat threadNum" by simp
  then have "rrank (rpcs (rexec E out sched (rspawn threadNum w it)) ! j)
               (length (rphotoIter (rexec E out sched (rspawn threadNum w it)))) = 0"
    using rexec_rank[of j "rspawn threadNum w it" E out sched] assms by simp
  then show "rpcs (rexec E out sched (rspawn threadNum w it)) ! j = Finished"
    by (simp only: rrank_0)
qed

lemma sum_list_all_Finished:
  "list_all (\<lambda>l. l = Finished) xs \<Longrightarrow> sum_list (map f xs) = length xs * (f Finished :: nat)"
  by (induction xs) simp_all

lemma all_finished_rtot: "all_finished s \<Longrightarrow> rtot f s = length (rpcs s) * f Finished"
  by (simp add: all_finished_def rtot_def sum_list_all_Finished)

lemma os_Remove_absent:
  "absent E out (files w) a \<Longrightarrow>
   os_Remove E (LocalPath E a out) w
     = (Some ErrNotExist, w\<lparr>remove_calls := remove_calls w @ [LocalPath E a out]\<rparr>)"
  by (simp add: os_Remove_def absent_def Let_def)

lemma inv_absent_step:
  assumes inv: "inv_absent E out F R0 M s"
  shows "inv_absent E out F R0 M (rstep E out i s)"
proof (cases "i < length (rpcs s)")
  case False
  then show ?thesis using inv by (simp add: rstep_def)
next
  case True
  note g1 = rtot_ge[OF True, of removing] and g2 = rtot_ge[OF True, of "rbad (absent E out F)"]
    and g3 = rtot_ge[OF True, of rfinished]
  have A: "length (remove_calls (rworld s)) + rtot removing s + length (rphotoIter s) = R0 + M"
    and B: "rtot (rbad (absent E out F)) s = 0"
    and C: "rfinalErr s = None"
    and D: "files (rworld s) = F"
    and G: "list_all (yields (absent E out F)) (rphotoIter s)"
    and H: "0 < rtot rfinished s \<Longrightarrow> rphotoIter s = []"
    using inv by (simp_all add: inv_absent_def)
  show ?thesis
  proof (cases "rpcs s ! i")
    case AtPull
    then show ?thesis
      using A B C D G H g1 g2 g3 True
      by (cases "rphotoIter s" rule: Next_cases) (auto simp: rstep_def inv_absent_def rtot_rgoto)
  next
    case (AtPullErr e)
    then show ?thesis using B g2 by simp
  next
    case (AtRemove a)
    then have "absent E out (files (rworld s)) a"
      using B g2 D by (simp split: if_splits)
    then show ?thesis
      using AtRemove A B C D G H g1 g2 g3 True
      by (auto simp: rstep_def inv_absent_def rtot_rgoto os_Remove_absent)
  next
    case (AtRemoveErr e)
    then show ?thesis using B g2 by simp
  next
    case (AtStoreErr e)
    then show ?thesis using B g2 by simp
  next
    case Finished
    then show ?thesis using inv by (simp add: rstep_def)
  qed
qed

lemma inv_absent_rexec:
  "inv_absent E out F R0 M s \<Longrightarrow> inv_absent E out F R0 M (rexec E out sched s)"
  by (induction sched arbitrary: s) (simp_all add: inv_absent_step)

lemma inv_absent_rspawn:
  "list_all (yields (absent E out (files w))) it \<Longrightarrow>
   inv_absent E out (files w) (length (remove_calls w)) (length it) (rspawn n w it)"
  by (simp add: inv_absent_def rtot_rspawn)

lemma run_removers_Some:
  "run_removers E out sched s0 = Some (res, s) \<longleftrightarrow>
     all_finished (rexec E out sched s0) \<and> s = rexec E out sched s0 \<and> res = rfinalErr s"
  by (auto simp: run_removers_def Let_def)

lemma run_removers_not_None:
  "run_removers E out sched s0 \<noteq> None \<longleftrightarrow> all_finished (rexec E out sched s0)"
  by (auto simp: run_removers_def Let_def)

lemma autoDeletePhoto_Inr:
  "GetAlbum E AlbumNameRecentlyDeleted = Inr album \<Longrightarrow>
   autoDeletePhoto E sched w outputDir threadNum =
     run_removers E outputDir sched
       (rspawn threadNum (print (EvAutoDelete (Name album) (album_Size E album)) w)
          (PhotosIter E album))"
  by (simp add: autoDeletePhoto_def)

section \<open>The album map is never empty\<close>

lemma fmupd_nonempty: "fmupd k v m \<noteq> fmempty"
proof
  assume "fmupd k v m = fmempty"
  then have "fmlookup (fmupd k v m) k = fmlookup fmempty k" by simp
  then show False by simp
qed

lemma add_folders_nonempty:
  "add_folders decode folders tmp = Some tmp1 \<Longrightarrow> tmp \<noteq> fmempty \<Longrightarrow> tmp1 \<noteq> fmempty"
proof (induction decode folders tmp rule: add_folders.induct)
  case (1 decode tmp)
  then show ?case by simp
next
  case (2 decode f folders tmp)
  then show ?case
    by (auto simp: Let_def fmupd_nonempty split: if_splits option.splits jvalue.splits)
qed

lemma builtin_nonempty:
  "fold (\<lambda>(name, props). fmupd name (builtin_album name props)) icloudPhotoFolderMeta fmempty \<noteq> fmempty"
  by (simp add: icloudPhotoFolderMeta_def fmupd_nonempty)

section \<open>The WaitGroup of downloadPhoto\<close>





lemma padded_fields [simp]:
  "photoIter (padded n s) = photoIter s" "world (padded n s) = world s"
  "downloaded (padded n s) = downloaded s" "foundDownloadedNum (padded n s) = foundDownloadedNum s"
  "finalErr (padded n s) = finalErr s"
  by (simp_all add: padded_def)


lemma padded_update [simp]:
  "padded n (s\<lparr>photoIter := it\<rparr>) = (padded n s)\<lparr>photoIter := it\<rparr>"
  "padded n (s\<lparr>world := w\<rparr>) = (padded n s)\<lparr>world := w\<rparr>"
  "padded n (s\<lparr>downloaded := d\<rparr>) = (padded n s)\<lparr>downloaded := d\<rparr>"
  "padded n (s\<lparr>foundDownloadedNum := f\<rparr>) = (padded n s)\<lparr>foundDownloadedNum := f\<rparr>"
  "padded n (s\<lparr>finalErr := e\<rparr>) = (padded n s)\<lparr>finalErr := e\<rparr>"
  by (simp_all add: padded_def)

















section \<open>The WaitGroup of autoDeletePhoto\<close>





lemma rpadded_fields [simp]:
  "rphotoIter (rpadded n s) = rphotoIter s" "rworld (rpadded n s) = rworld s"
  "rfinalErr (rpadded n s) = rfinalErr s"
  by (simp_all add: rpadded_def)


lemma rpadded_update [simp]:
  "rpadded n (s\<lparr>rphotoIter := it\<rparr>) = (rpadded n s)\<lparr>rphotoIter := it\<rparr>"
  "rpadded n (s\<lparr>rworld := w\<rparr>) = (rpadded n s)\<lparr>rworld := w\<rparr>"
  "rpadded n (s\<lparr>rfinalErr := e\<rparr>) = (rpadded n s)\<lparr>rfinalErr := e\<rparr>"
  by (simp_all add: rpadded_def)

















section \<open>Why a worker leaves\<close>






section \<open>A stop threshold that is already met\<close>

text \<open>
  Claim C9: when \<open>stopNum \<le> 0\<close> and the call reaches the worker pool (the directory,
  the album and the size lookups succeeded), every worker leaves at the checks at the head
  of its loop. In every state the schedule can reach the iterator and the world are
  untouched: nothing is pulled, nothing is fetched, nothing is announced. A run that
  returns returns nil, and it does return as soon as every worker has had two turns, one
  for each check.
\<close>

theorem C9_nonpositive_stopNum:
  assumes "sint stopNum \<le> 0"
    and "downloadPhoto_setup E w outputDir albumName recent threadNum = Inr (w1, recent1, it)"
  shows "photoIter (exec E outputDir recent1 stopNum sched (spawn threadNum w1 it)) = it
       \<and> world (exec E outputDir recent1 stopNum sched (spawn threadNum w1 it)) = w1
       \<and> (downloadPhoto E sched w outputDir albumName recent stopNum threadNum = Some (r, s)
            \<longrightarrow> r = None \<and> photoIter s = it \<and> world s = w1)
       \<and> ((\<forall>j < nat threadNum. 2 \<le> count_list sched j)
            \<longrightarrow> downloadPhoto E sched w outputDir albumName recent stopNum threadNum \<noteq> None)"
proof -
  let ?init = "spawn threadNum w1 it"
  let ?s = "exec E outputDir recent1 stopNum sched ?init"
  have st: "foundDownloadedNum ?s = 0 \<and> tot beyond_checks ?s = 0 \<and> photoIter ?s = it \<and> world ?s = w1
      \<and> (\<forall>j < nat threadNum. checks_left (pcs ?s ! j) \<le> 2 - count_list sched j)"
    using stopped_exec[OF assms(1), where s = ?init and E = E and out = outputDir and r = recent1 and sched = sched]
    by (simp add: tot_replicate)
  have fin: "all_done ?s" if "\<forall>j < nat threadNum. 2 \<le> count_list sched j"
    unfolding all_done_def list_all_length
  proof (intro allI impI)
    fix j assume "j < length (pcs ?s)"
    then have j: "j < nat threadNum" by simp
    then have "checks_left (pcs ?s ! j) = 0" using st that by auto
    moreover have "beyond_checks (pcs ?s ! j) = 0"
      using st j tot_0_nth[of beyond_checks ?s j] by simp
    ultimately show "pcs ?s ! j = Done" by (rule checks_left_0[rotated])
  qed
  have A: "photoIter ?s = it" and B: "world ?s = w1" using st by simp_all
  have C: "downloadPhoto E sched w outputDir albumName recent stopNum threadNum = Some (r, s)
            \<longrightarrow> r = None \<and> photoIter s = it \<and> world s = w1"
  proof
    assume "downloadPhoto E sched w outputDir albumName recent stopNum threadNum = Some (r, s)"
    then have rw: "run_workers E outputDir recent1 stopNum sched ?init = Some (r, s)"
      by (simp only: downloadPhoto_Inr[OF assms(2)])
    then have "s = ?s" by (simp only: run_workers_Some)
    with A B run_workers_nil[OF rw] show "r = None \<and> photoIter s = it \<and> world s = w1"
      by simp
  qed
  have D: "(\<forall>j < nat threadNum. 2 \<le> count_list sched j)
            \<longrightarrow> downloadPhoto E sched w outputDir albumName recent stopNum threadNum \<noteq> None"
    using fin by (simp only: downloadPhoto_Inr[OF assms(2)] run_workers_not_None) blast
  show ?thesis by (rule conjI[OF A conjI[OF B conjI[OF C D]]])
qed

theorem C9_witness:
  "sint (0 :: 64 word) \<le> 0
   \<and> downloadPhoto_setup (test_env [Yield assetA] no_fault no_rm_fault) world_empty
         ''out'' ''All Photos'' 0 2
       = Inr (print (EvAlbum ''All Photos'' 1 ''out'' 2) world_empty, 1, [Yield assetA])
   \<and> map_option fst
        (downloadPhoto (test_env [Yield assetA] no_fault no_rm_fault) [0, 1, 0, 1]
           world_empty ''out'' ''All Photos'' 0 0 2) = Some None
   \<and> map_option (photoIter \<circ> snd)
        (downloadPhoto (test_env [Yield assetA] no_fault no_rm_fault) [0, 1, 0, 1]
           world_empty ''out'' ''All Photos'' 0 0 2) = Some [Yield assetA]
   \<and> map_option (fetched \<circ> world \<circ> snd)
        (downloadPhoto (test_env [Yield assetA] no_fault no_rm_fault) [0, 1, 0, 1]
           world_empty ''out'' ''All Photos'' 0 0 2) = Some []"
proof -
  let ?E = "test_env [Yield assetA] no_fault no_rm_fault"
  let ?w1 = "print (EvAlbum ''All Photos'' 1 ''out'' 2) world_empty"
  let ?run = "downloadPhoto ?E [0, 1, 0, 1] world_empty ''out'' ''All Photos'' 0 0 2"
  have h1: "sint (0 :: 64 word) \<le> 0" by simp
  have h2: "downloadPhoto_setup ?E world_empty ''out'' ''All Photos'' 0 2
              = Inr (?w1, 1, [Yield assetA])"
    by (simp add: setup_test_env world_empty_def)
  have turns: "\<forall>j < nat 2. 2 \<le> count_list [0, 1, 0, 1] j"
    by (simp add: numeral_2_eq_2 less_Suc_eq)
  note inst = C9_nonpositive_stopNum[OF h1 h2, where sched = "[0, 1, 0, 1]"]
  from inst turns have "?run \<noteq> None" by blast
  then obtain r s where rs: "?run = Some (r, s)" by (cases ?run) auto
  with inst[of r s] have "r = None" "photoIter s = [Yield assetA]" "world s = ?w1" by simp_all
  with rs h1 h2 show ?thesis by (simp add: print_def world_empty_def)
qed

section \<open>Stopping at the cap on new downloads\<close>

text \<open>
  Claim C3: with the cap on new downloads \<open>K\<close> (the value the workers compare the
  counter \<open>downloaded\<close> with: \<open>recent\<close>, or the album size when \<open>recent\<close> is 0) and
  \<open>threadNum\<close> workers, a run performs at most \<open>K + (threadNum - 1)\<close> fetches and returns
  nil. The bound holds in every state a schedule can reach, whatever the iterator yields
  and whether fetches fail or not; the run returns as soon as every worker has had
  \<open>6 * length it + 3\<close> turns. The counter is a 32-bit integer, so the cap and the
  workers together have to stay within its range: \<open>K + threadNum \<le> 2 ^ 31\<close>.
\<close>

theorem C3_fetch_bound:
  assumes "0 \<le> sint recent1" and "sint recent1 + threadNum \<le> 2 ^ 31" and "1 \<le> threadNum"
    and "downloadPhoto_setup E w outputDir albumName recent threadNum = Inr (w1, recent1, it)"
  shows "int (length (fetched (world (exec E outputDir recent1 stopNum sched (spawn threadNum w1 it)))))
           \<le> int (length (fetched w)) + sint recent1 + (threadNum - 1)
       \<and> (downloadPhoto E sched w outputDir albumName recent stopNum threadNum = Some (r, s)
            \<longrightarrow> r = None
              \<and> int (length (fetched (world s)))
                  \<le> int (length (fetched w)) + sint recent1 + (threadNum - 1))
       \<and> ((\<forall>j < nat threadNum. 6 * length it + 3 \<le> count_list sched j)
            \<longrightarrow> downloadPhoto E sched w outputDir albumName recent stopNum threadNum \<noteq> None)"
proof -
  let ?init = "spawn threadNum w1 it"
  let ?fin = "exec E outputDir recent1 stopNum sched ?init"
  let ?K = "nat (sint recent1)"
  have cap: "sint (int32 recent1) = int ?K"
    using assms(1,2,3) by (simp add: sint_int32)
  have range: "?K + length (pcs ?init) \<le> 2 ^ 31"
    using assms(1,2,3) by (simp add: nat_add_distrib[symmetric] nat_le_iff)
  have "inv_cap (length (fetched w1)) ?K ?fin"
    using assms(3) by (intro inv_cap_exec[OF inv_cap_spawn cap range]) 
  then have "length (fetched (world ?fin)) + 1 \<le> length (fetched w1) + ?K + length (pcs ?fin)"
    by (rule inv_cap_bound)
  then have A: "int (length (fetched (world ?fin)))
           \<le> int (length (fetched w)) + sint recent1 + (threadNum - 1)"
    using assms(1,3) setup_Inr_world[OF assms(4)] by simp
  have B: "downloadPhoto E sched w outputDir albumName recent stopNum threadNum = Some (r, s)
            \<longrightarrow> r = None
              \<and> int (length (fetched (world s)))
                  \<le> int (length (fetched w)) + sint recent1 + (threadNum - 1)"
  proof
    assume "downloadPhoto E sched w outputDir albumName recent stopNum threadNum = Some (r, s)"
    then have rw: "run_workers E outputDir recent1 stopNum sched ?init = Some (r, s)"
      by (simp only: downloadPhoto_Inr[OF assms(4)])
    then have "s = ?fin" by (simp only: run_workers_Some)
    with A run_workers_nil[OF rw]
    show "r = None \<and> int (length (fetched (world s)))
                  \<le> int (length (fetched w)) + sint recent1 + (threadNum - 1)"
      by simp
  qed
  have C: "(\<forall>j < nat threadNum. 6 * length it + 3 \<le> count_list sched j)
            \<longrightarrow> downloadPhoto E sched w outputDir albumName recent stopNum threadNum \<noteq> None"
    using downloadPhoto_returns[OF assms(4)] by blast
  show ?thesis by (rule conjI[OF A conjI[OF B C]])
qed

theorem C3_witness:
  "0 \<le> sint (1 :: 64 word) \<and> sint (1 :: 64 word) + 1 \<le> 2 ^ 31 \<and> (1 :: int) \<le> 1
   \<and> downloadPhoto_setup (test_env [Yield assetA, Yield assetB] no_fault no_rm_fault) world_empty
         ''out'' ''All Photos'' 1 1
       = Inr (print (EvAlbum ''All Photos'' 2 ''out'' 1) world_empty, 1, [Yield assetA, Yield assetB])
   \<and> map_option fst
        (downloadPhoto (test_env [Yield assetA, Yield assetB] no_fault no_rm_fault) (turns 15)
           world_empty ''out'' ''All Photos'' 1 50 1) = Some None
   \<and> map_option (\<lambda>rs. length (fetched (world (snd rs))) \<le> 1)
        (downloadPhoto (test_env [Yield assetA, Yield assetB] no_fault no_rm_fault) (turns 15)
           world_empty ''out'' ''All Photos'' 1 50 1) = Some True"
proof -
  let ?E = "test_env [Yield assetA, Yield assetB] no_fault no_rm_fault"
  let ?w1 = "print (EvAlbum ''All Photos'' 2 ''out'' 1) world_empty"
  let ?run = "downloadPhoto ?E (turns 15) world_empty ''out'' ''All Photos'' 1 50 1"
  have h1: "0 \<le> sint (1 :: 64 word)" and h2: "sint (1 :: 64 word) + 1 \<le> 2 ^ 31"
    and h3: "(1 :: int) \<le> 1" by simp_all
  have h4: "downloadPhoto_setup ?E world_empty ''out'' ''All Photos'' 1 1
              = Inr (?w1, 1, [Yield assetA, Yield assetB])"
    by (simp add: setup_test_env world_empty_def)
  have turns: "\<forall>j < nat 1. 6 * length [Yield assetA, Yield assetB] + 3 \<le> count_list (turns 15) j"
    by (simp add: count_list_turns)
  note inst = C3_fetch_bound[OF h1 h2 h3 h4, where sched = "turns 15" and stopNum = 50]
  from inst turns have "?run \<noteq> None" by blast
  then obtain r s where rs: "?run = Some (r, s)" by (cases ?run) auto
  with inst[of r s] have "r = None" "int (length (fetched (world s))) \<le> 1"
    by (simp_all add: world_empty_def)
  with rs h1 h2 h3 h4 show ?thesis by simp
qed

text \<open>
  With \<open>recent = 0\<close> the cap is the size of the album, not zero: one worker, two assets
  that are not present locally, two fetches.
\<close>

lemma recent_0_is_album_size:
  "map_option (length \<circ> fetched \<circ> world \<circ> snd)
     (downloadPhoto (test_env [Yield assetA, Yield assetB] no_fault no_rm_fault) (turns 15)
        world_empty ''out'' ''All Photos'' 0 50 1) = Some 2"
  by (simp add: downloadPhoto_test_env world_empty_def) (simp add: run_defs)

section \<open>Exhaustion is not an error\<close>

text \<open>
  Claim C5: the iterator yields exactly \<open>length it\<close> assets and no pull or fetch fails.
  If a run returns and neither stop condition holds at its end, then it returns nil, the
  iterator is used up, exactly \<open>length it\<close> assets were announced and each of them was
  counted by one of the two counters. Whether or not a stop condition is reached, the
  result is nil, so the end-of-sequence error never surfaces; and the run returns as soon
  as every worker has had \<open>6 * length it + 3\<close> turns. The counters are machine integers:
  the statement is for fewer than \<open>2 ^ 31\<close> assets.
\<close>

theorem C5_exhaustion:
  assumes "downloadPhoto_setup E w outputDir albumName recent threadNum = Inr (w1, recent1, it)"
    and "1 \<le> threadNum"
    and "list_all (yields any_asset) it"
    and "\<forall>k a p. DownloadTo_result E k a p = None"
    and "length it < 2 ^ 31"
  shows "(downloadPhoto E sched w outputDir albumName recent stopNum threadNum = Some (r, s)
            \<and> \<not> sint (int32 recent1) \<le> sint (downloaded s)
            \<and> \<not> sint stopNum \<le> sint (foundDownloadedNum s)
          \<longrightarrow> r = None \<and> photoIter s = []
              \<and> started (world s) = started w + length it
              \<and> unat (downloaded s) + unat (foundDownloadedNum s) = length it)
       \<and> (downloadPhoto E sched w outputDir albumName recent stopNum threadNum = Some (r, s)
          \<longrightarrow> r = None)
       \<and> ((\<forall>j < nat threadNum. 6 * length it + 3 \<le> count_list sched j)
          \<longrightarrow> downloadPhoto E sched w outputDir albumName recent stopNum threadNum \<noteq> None)"
proof -
  let ?init = "spawn threadNum w1 it"
  let ?fin = "exec E outputDir recent1 stopNum sched ?init"
  let ?run = "downloadPhoto E sched w outputDir albumName recent stopNum threadNum"
  have inv: "inv_all (started w1) (length it) recent1 stopNum ?fin"
    by (intro inv_all_exec inv_all_spawn assms)
  have B: "?run = Some (r, s) \<longrightarrow> r = None"
  proof
    assume "?run = Some (r, s)"
    then have "run_workers E outputDir recent1 stopNum sched ?init = Some (r, s)"
      by (simp only: downloadPhoto_Inr[OF assms(1)])
    then show "r = None" by (rule run_workers_nil)
  qed
  have A: "?run = Some (r, s)
            \<and> \<not> sint (int32 recent1) \<le> sint (downloaded s)
            \<and> \<not> sint stopNum \<le> sint (foundDownloadedNum s)
          \<longrightarrow> r = None \<and> photoIter s = []
              \<and> started (world s) = started w + length it
              \<and> unat (downloaded s) + unat (foundDownloadedNum s) = length it"
  proof
    assume a: "?run = Some (r, s)
            \<and> \<not> sint (int32 recent1) \<le> sint (downloaded s)
            \<and> \<not> sint stopNum \<le> sint (foundDownloadedNum s)"
    then have rw: "run_workers E outputDir recent1 stopNum sched ?init = Some (r, s)"
      by (simp only: downloadPhoto_Inr[OF assms(1)])
    then have s: "s = ?fin" and fin: "all_done ?fin" by (simp_all only: run_workers_Some)
    have n: "length (pcs s) = nat threadNum" using s by simp
    have t: "tot f s = nat threadNum * f Done" for f
      using all_done_tot[OF fin, of f] s n by simp
    have "0 < tot finished s" using t[of finished] assms(2) by simp
    with inv s a have empty: "photoIter s = []" by (simp add: inv_all_def)
    have "unat (downloaded s) + unat (foundDownloadedNum s) + tot inflight s + length (photoIter s) = length it"
      and "started (world s) + tot statting s + length (photoIter s) = started w1 + length it"
      using inv s by (simp_all add: inv_all_def)
    with empty t[of inflight] t[of statting] B a setup_Inr_started[OF assms(1)]
    show "r = None \<and> photoIter s = []
              \<and> started (world s) = started w + length it
              \<and> unat (downloaded s) + unat (foundDownloadedNum s) = length it"
      by simp
  qed
  have C: "(\<forall>j < nat threadNum. 6 * length it + 3 \<le> count_list sched j) \<longrightarrow> ?run \<noteq> None"
    using downloadPhoto_returns[OF assms(1)] by blast
  show ?thesis by (rule conjI[OF A conjI[OF B C]])
qed

theorem C5_witness:
  "downloadPhoto_setup (test_env [Yield assetA, Yield assetB] no_fault no_rm_fault) world_B
         ''out'' ''All Photos'' 0 1
       = Inr (print (EvAlbum ''All Photos'' 2 ''out'' 1) world_B, 2, [Yield assetA, Yield assetB])
   \<and> (1 :: int) \<le> 1
   \<and> list_all (yields any_asset) [Yield assetA, Yield assetB]
   \<and> length [Yield assetA, Yield assetB] < 2 ^ 31
   \<and> map_option (\<lambda>rs. (fst rs, photoIter (snd rs), started (world (snd rs)),
                        downloaded (snd rs), foundDownloadedNum (snd rs)))
        (downloadPhoto (test_env [Yield assetA, Yield assetB] no_fault no_rm_fault) (turns 15)
           world_B ''out'' ''All Photos'' 0 50 1) = Some (None, [], 2, 1, 1)"
proof -
  let ?E = "test_env [Yield assetA, Yield assetB] no_fault no_rm_fault"
  let ?w1 = "print (EvAlbum ''All Photos'' 2 ''out'' 1) world_B"
  let ?run = "downloadPhoto ?E (turns 15) world_B ''out'' ''All Photos'' 0 50 1"
  have h1: "downloadPhoto_setup ?E world_B ''out'' ''All Photos'' 0 1
              = Inr (?w1, 2, [Yield assetA, Yield assetB])"
    by (simp add: setup_test_env world_B_def)
  have h2: "(1 :: int) \<le> 1" by simp
  have h3: "list_all (yields any_asset) [Yield assetA, Yield assetB]" by (simp add: any_asset_def)
  have h4: "\<forall>k a p. DownloadTo_result ?E k a p = None" by (simp add: test_env_def no_fault_def)
  have h5: "length [Yield assetA, Yield assetB] < 2 ^ 31" by simp
  have ev: "map_option (\<lambda>rs. (downloaded (snd rs), foundDownloadedNum (snd rs))) ?run = Some (1, 1)"
    by (simp add: downloadPhoto_test_env world_B_def) (simp add: run_defs)
  then obtain r s where rs: "?run = Some (r, s)" and d: "downloaded s = 1"
    and f: "foundDownloadedNum s = 1" by (cases ?run) auto
  have no_stop: "\<not> sint (int32 2) \<le> sint (downloaded s)" "\<not> sint (50 :: 64 word) \<le> sint (foundDownloadedNum s)"
    using d f by (simp_all add: int32_def)
  note inst = C5_exhaustion[OF h1 h2 h3 h4 h5, where sched = "turns 15" and stopNum = 50 and r = r and s = s]
  from inst rs no_stop have "r = None" "photoIter s = []" "started (world s) = started world_B + 2"
    by simp_all
  with rs d f h1 h2 h3 h5 show ?thesis by (simp add: started_def world_B_def)
qed

section \<open>Skip or fetch\<close>

text \<open>
  Claim C4: \<open>downloadPhotoAsset\<close> skips an asset exactly when a local file exists at the
  resolved path and has the asset's size: it then answers \<open>true\<close> without calling
  \<open>DownloadTo\<close> and without touching the files, and the worker goes on to increment
  \<open>foundDownloadedNum\<close>. In every other case (no file, or a file of another size) it
  answers \<open>false\<close> and calls \<open>DownloadTo\<close> once for that path, which on success leaves a
  file of the asset's size there; the worker does not touch \<open>foundDownloadedNum\<close> and
  goes on to count the download, or to the error handling when the fetch failed.
\<close>

theorem C4_skip_or_fetch:
  "(os_Stat w (LocalPath E photo outputDir) = Some (Size photo) \<longrightarrow>
       fst (downloadPhotoAsset E photo outputDir i w) = (True, None)
     \<and> fetched (snd (downloadPhotoAsset E photo outputDir i w)) = fetched w
     \<and> files (snd (downloadPhotoAsset E photo outputDir i w)) = files w)
   \<and> (os_Stat w (LocalPath E photo outputDir) \<noteq> Some (Size photo) \<longrightarrow>
       fst (fst (downloadPhotoAsset E photo outputDir i w)) = False
     \<and> snd (fst (downloadPhotoAsset E photo outputDir i w))
         = DownloadTo_result E (length (fetched w)) photo (LocalPath E photo outputDir)
     \<and> fetched (snd (downloadPhotoAsset E photo outputDir i w))
         = fetched w @ [(photo, LocalPath E photo outputDir)]
     \<and> (snd (fst (downloadPhotoAsset E photo outputDir i w)) = None \<longrightarrow>
          files (snd (downloadPhotoAsset E photo outputDir i w)) (LocalPath E photo outputDir)
            = Some (Size photo)))
   \<and> (i < length (pcs s) \<and> pcs s ! i = AtStat photo \<longrightarrow>
       pcs (step E outputDir recent stopNum i s) ! i
         = (if os_Stat (world s) (LocalPath E photo outputDir) = Some (Size photo)
            then AtAddFound else AtDownloadTo photo (LocalPath E photo outputDir)))
   \<and> (i < length (pcs s) \<and> pcs s ! i = AtAddFound \<longrightarrow>
       foundDownloadedNum (step E outputDir recent stopNum i s) = foundDownloadedNum s + 1
     \<and> downloaded (step E outputDir recent stopNum i s) = downloaded s)
   \<and> (i < length (pcs s) \<and> pcs s ! i = AtDownloadTo photo path \<longrightarrow>
       foundDownloadedNum (step E outputDir recent stopNum i s) = foundDownloadedNum s
     \<and> pcs (step E outputDir recent stopNum i s) ! i
         = (case DownloadTo_result E (length (fetched (world s))) photo path of
              None \<Rightarrow> AtAddDownloaded | Some err \<Rightarrow> AtReadErr err))"
  by (auto simp: downloadPhotoAsset_def downloadPhotoAsset_stat_def DownloadTo_def os_Stat_def
        print_def Let_def step_def pcs_goto split: option.splits)

theorem C4_witness:
  "os_Stat world_B (LocalPath (test_env [] no_fault no_rm_fault) assetB ''out'') = Some (Size assetB)
   \<and> fst (downloadPhotoAsset (test_env [] no_fault no_rm_fault) assetB ''out'' 0 world_B) = (True, None)
   \<and> fetched (snd (downloadPhotoAsset (test_env [] no_fault no_rm_fault) assetB ''out'' 0 world_B)) = []
   \<and> os_Stat world_B (LocalPath (test_env [] no_fault no_rm_fault) assetA ''out'') \<noteq> Some (Size assetA)
   \<and> fst (downloadPhotoAsset (test_env [] no_fault no_rm_fault) assetA ''out'' 0 world_B) = (False, None)
   \<and> fetched (snd (downloadPhotoAsset (test_env [] no_fault no_rm_fault) assetA ''out'' 0 world_B))
       = [(assetA, ''out/A.jpg'')]
   \<and> files (snd (downloadPhotoAsset (test_env [] no_fault no_rm_fault) assetA ''out'' 0 world_B))
        ''out/A.jpg'' = Some 2097152"
proof -
  let ?E = "test_env [] no_fault no_rm_fault"
  have pB: "LocalPath ?E assetB ''out'' = ''out/B.jpg''" and pA: "LocalPath ?E assetA ''out'' = ''out/A.jpg''"
    by (simp_all add: test_env_def assetA_def assetB_def)
  have hB: "os_Stat world_B (LocalPath ?E assetB ''out'') = Some (Size assetB)"
    unfolding pB by (simp add: os_Stat_def world_B_def assetB_def)
  have hA: "os_Stat world_B (LocalPath ?E assetA ''out'') \<noteq> Some (Size assetA)"
    unfolding pA by (simp add: os_Stat_def world_B_def assetA_def)
  have dl: "DownloadTo_result ?E (length (fetched world_B)) assetA (LocalPath ?E assetA ''out'') = None"
    by (simp add: test_env_def no_fault_def)
  note iB = C4_skip_or_fetch[where E = ?E and photo = assetB and outputDir = "''out''" and i = 0 and w = world_B]
  note iA = C4_skip_or_fetch[where E = ?E and photo = assetA and outputDir = "''out''" and i = 0 and w = world_B]
  from iB hB have B: "fst (downloadPhotoAsset ?E assetB ''out'' 0 world_B) = (True, None)"
    "fetched (snd (downloadPhotoAsset ?E assetB ''out'' 0 world_B)) = fetched world_B" by blast+
  from iA hA dl have A: "fst (fst (downloadPhotoAsset ?E assetA ''out'' 0 world_B)) = False"
    "snd (fst (downloadPhotoAsset ?E assetA ''out'' 0 world_B)) = None"
    "fetched (snd (downloadPhotoAsset ?E assetA ''out'' 0 world_B))
       = fetched world_B @ [(assetA, LocalPath ?E assetA ''out'')]"
    "files (snd (downloadPhotoAsset ?E assetA ''out'' 0 world_B)) (LocalPath ?E assetA ''out'')
       = Some (Size assetA)" by auto
  have fB: "fetched world_B = []" by (simp add: world_B_def)
  from A(1,2) have A12: "fst (downloadPhotoAsset ?E assetA ''out'' 0 world_B) = (False, None)"
    by (simp add: prod_eq_iff)
  show ?thesis
    using hB hA B A12 A(3,4) by (simp add: pA fB) (simp add: assetA_def)
qed

section \<open>Reconciling files that are already gone\<close>

text \<open>
  Claim C6: the iterator of the deleted album yields assets only, the local file of each
  is already absent and its removal meets no other fault, so that every \<open>os.Remove\<close>
  answers file-does-not-exist. A run that returns then returns nil with the iterator used
  up, one removal attempted for every asset and the files as they were: a worker that
  meets a missing file goes on to the next asset. The run returns as soon as every worker
  has had \<open>2 * length it + 2\<close> turns.
\<close>

theorem C6_absent_files:
  assumes "GetAlbum E AlbumNameRecentlyDeleted = Inr album"
    and "1 \<le> threadNum"
    and "list_all (yields (absent E outputDir (files w))) (PhotosIter E album)"
  shows "(autoDeletePhoto E sched w outputDir threadNum = Some (r, s) \<longrightarrow>
            r = None \<and> rphotoIter s = []
          \<and> length (remove_calls (rworld s))
              = length (remove_calls w) + length (PhotosIter E album)
          \<and> files (rworld s) = files w)
       \<and> ((\<forall>j < nat threadNum. 2 * length (PhotosIter E album) + 2 \<le> count_list sched j)
          \<longrightarrow> autoDeletePhoto E sched w outputDir threadNum \<noteq> None)"
proof -
  let ?w1 = "print (EvAutoDelete (Name album) (album_Size E album)) w"
  let ?it = "PhotosIter E album"
  let ?init = "rspawn threadNum ?w1 ?it"
  let ?fin = "rexec E outputDir sched ?init"
  let ?run = "autoDeletePhoto E sched w outputDir threadNum"
  have w1: "files ?w1 = files w" "remove_calls ?w1 = remove_calls w" by (simp_all add: print_def)
  have "inv_absent E outputDir (files ?w1) (length (remove_calls ?w1)) (length ?it) ?init"
    using assms(3) by (intro inv_absent_rspawn) (simp add: w1)
  then have inv: "inv_absent E outputDir (files w) (length (remove_calls w)) (length ?it) ?fin"
    unfolding w1 by (rule inv_absent_rexec)
  have A: "?run = Some (r, s) \<longrightarrow>
            r = None \<and> rphotoIter s = []
          \<and> length (remove_calls (rworld s)) = length (remove_calls w) + length ?it
          \<and> files (rworld s) = files w"
  proof
    assume "?run = Some (r, s)"
    then have "run_removers E outputDir sched ?init = Some (r, s)"
      by (simp only: autoDeletePhoto_Inr[OF assms(1)])
    then have s: "s = ?fin" and fin: "all_finished ?fin" and r: "r = rfinalErr s"
      by (simp_all only: run_removers_Some)
    have n: "length (rpcs s) = nat threadNum" using s by simp
    have t: "rtot f s = nat threadNum * f Finished" for f
      using all_finished_rtot[OF fin, of f] s n by simp
    have "0 < rtot rfinished s" using t[of rfinished] assms(2) by simp
    with inv s have empty: "rphotoIter s = []" by (simp add: inv_absent_def)
    have "length (remove_calls (rworld s)) + rtot removing s + length (rphotoIter s)
            = length (remove_calls w) + length ?it"
      and "rfinalErr s = None" and "files (rworld s) = files w"
      using inv s by (simp_all add: inv_absent_def)
    with empty t[of removing] r
    show "r = None \<and> rphotoIter s = []
          \<and> length (remove_calls (rworld s)) = length (remove_calls w) + length ?it
          \<and> files (rworld s) = files w"
      by simp
  qed
  have B: "(\<forall>j < nat threadNum. 2 * length ?it + 2 \<le> count_list sched j) \<longrightarrow> ?run \<noteq> None"
    using enough_turns_all_finished[of threadNum ?it sched E outputDir ?w1]
    by (simp only: autoDeletePhoto_Inr[OF assms(1)] run_removers_not_None) blast
  show ?thesis by (rule conjI[OF A B])
qed

theorem C6_witness:
  "GetAlbum (test_env [Yield assetA, Yield assetB] no_fault no_rm_fault) AlbumNameRecentlyDeleted
     = Inr (test_album ''Recently Deleted'')
   \<and> (1 :: int) \<le> 1
   \<and> list_all (yields (absent (test_env [Yield assetA, Yield assetB] no_fault no_rm_fault) ''out''
                          (files world_empty)))
        (PhotosIter (test_env [Yield assetA, Yield assetB] no_fault no_rm_fault)
           (test_album ''Recently Deleted''))
   \<and> map_option (\<lambda>rs. (fst rs, rphotoIter (snd rs), length (remove_calls (rworld (snd rs)))))
        (autoDeletePhoto (test_env [Yield assetA, Yield assetB] no_fault no_rm_fault) (turns 6)
           world_empty ''out'' 1) = Some (None, [], 2)"
proof -
  let ?E = "test_env [Yield assetA, Yield assetB] no_fault no_rm_fault"
  let ?run = "autoDeletePhoto ?E (turns 6) world_empty ''out'' 1"
  have h1: "GetAlbum ?E AlbumNameRecentlyDeleted = Inr (test_album ''Recently Deleted'')"
    by (simp add: test_env_def AlbumNameRecentlyDeleted_def)
  have h2: "(1 :: int) \<le> 1" by simp
  have it: "PhotosIter ?E (test_album ''Recently Deleted'') = [Yield assetA, Yield assetB]"
    by (simp add: test_env_def)
  have h3: "list_all (yields (absent ?E ''out'' (files world_empty)))
              (PhotosIter ?E (test_album ''Recently Deleted''))"
    unfolding it
    by (simp add: absent_def test_env_def no_rm_fault_def world_empty_def assetA_def assetB_def)
  have turns: "\<forall>j < nat 1. 2 * length (PhotosIter ?E (test_album ''Recently Deleted'')) + 2
                 \<le> count_list (turns 6) j"
    unfolding it by (simp add: count_list_turns)
  note inst = C6_absent_files[OF h1 h2 h3, where sched = "turns 6"]
  from inst turns have "?run \<noteq> None" by blast
  then obtain r s where rs: "?run = Some (r, s)" by (cases ?run) auto
  with inst[of r s] have "r = None" "rphotoIter s = []"
    "length (remove_calls (rworld s)) = length (remove_calls world_empty) + 2"
    unfolding it by simp_all
  with rs h1 h2 h3 show ?thesis by (simp add: world_empty_def)
qed

section \<open>The album cache\<close>

text \<open>
  Claim C10: once \<open>Albums\<close> has returned a map, the map is not empty (the built-in
  albums are always in it) and it is the cache; a second call returns the same map and
  leaves the service as it is, whatever the remote and the decoder would answer: it sends
  no folder query.
\<close>

theorem C10_albums_cached:
  assumes "Albums getFolders decode r = (AlbumsOk m, r1)"
  shows "m \<noteq> fmempty \<and> albums_cache r1 = m
       \<and> Albums getFolders2 decode2 r1 = (AlbumsOk m, r1)"
proof (cases "albums_cache r = fmempty")
  case False
  with assms show ?thesis by (auto simp: Albums_def)
next
  case True
  let ?tmp = "fold (\<lambda>(name, props). fmupd name (builtin_album name props)) icloudPhotoFolderMeta fmempty"
  from assms True obtain folders where
    af: "add_folders decode folders ?tmp = Some m"
    and r1: "r1 = r\<lparr>folder_queries := Suc (folder_queries r), albums_cache := m\<rparr>"
    by (auto simp: Albums_def Let_def split: sum.splits option.splits)
  have "m \<noteq> fmempty" by (rule add_folders_nonempty[OF af builtin_nonempty])
  with r1 show ?thesis by (simp add: Albums_def)
qed

theorem C10_witness:
  "Albums test_folders test_decode test_service
     = (AlbumsOk test_albums, \<lparr>albums_cache = test_albums, folder_queries = 1\<rparr>)
   \<and> test_albums \<noteq> fmempty
   \<and> Albums offline test_decode \<lparr>albums_cache = test_albums, folder_queries = 1\<rparr>
     = (AlbumsOk test_albums, \<lparr>albums_cache = test_albums, folder_queries = 1\<rparr>)"
proof -
  have h: "Albums test_folders test_decode test_service
     = (AlbumsOk test_albums, \<lparr>albums_cache = test_albums, folder_queries = 1\<rparr>)"
    by (simp add: Albums_def test_service_def test_folders_def test_decode_def test_albums_def Let_def)
  from C10_albums_cached[OF h, of offline test_decode] h show ?thesis by simp
qed

section \<open>The barrier, and who makes a worker leave\<close>



end
